theory Spec2Isabelle
  imports Main "HOL-Library.Log_Nat"
begin

section \<open>Grid codec (src/utils/sudoku.ts)\<close>

text \<open>
  A JavaScript string is modelled as a \<^typ>\<open>string\<close>, one \<^typ>\<open>char\<close> per character
  (code points 0 to 255). A cell of type \<^verbatim>\<open>number | null\<close> is a \<^typ>\<open>nat option\<close>,
  \<^term>\<open>None\<close> standing for \<^verbatim>\<open>null\<close>. The two \<^verbatim>\<open>throw new Error\<close> sites of
  \<^verbatim>\<open>parseGrid\<close> are the two constructors of \<open>error\<close>.
\<close>

definition BOARD_SIZE :: nat where
  "BOARD_SIZE = 81"

datatype error =
  LengthError nat  \<comment> \<open>Expected 81 chars, got n\<close>
| CharError char   \<comment> \<open>Invalid grid character: c\<close>

text \<open>
  \<^verbatim>\<open>Number(char)\<close> on a string of one character: a decimal digit gives its value, a
  white-space character gives 0 (the string is empty once trimmed), anything else gives
  NaN, which is \<^term>\<open>None\<close> here.
\<close>

definition is_js_whitespace :: "char \<Rightarrow> bool" where
  "is_js_whitespace c \<longleftrightarrow>
     (of_char c :: nat) \<in> {0x09, 0x0A, 0x0B, 0x0C, 0x0D, 0x20, 0xA0}"

definition Number_char :: "char \<Rightarrow> int option" where
  "Number_char c =
     (if 48 \<le> (of_char c :: nat) \<and> (of_char c :: nat) \<le> 57 then Some (int (of_char c) - 48)
      else if is_js_whitespace c then Some 0
      else None)"

definition parseCell :: "char \<Rightarrow> error + nat option" where
  "parseCell c =
     (if c = CHR ''.'' \<or> c = CHR ''-'' \<or> c = CHR ''0'' then Inr None
      else case Number_char c of
             None \<Rightarrow> Inl (CharError c)
           | Some v \<Rightarrow> if v < 1 \<or> 9 < v then Inl (CharError c) else Inr (Some (nat v)))"

text \<open>\<^verbatim>\<open>[...grid].map(...)\<close>: the first character that throws ends the call.\<close>

fun mapCells :: "string \<Rightarrow> error + nat option list" where
  "mapCells [] = Inr []"
| "mapCells (c # cs) =
     (case parseCell c of
        Inl e \<Rightarrow> Inl e
      | Inr v \<Rightarrow> (case mapCells cs of Inl e \<Rightarrow> Inl e | Inr vs \<Rightarrow> Inr (v # vs)))"

definition parseGrid :: "string \<Rightarrow> error + nat option list" where
  "parseGrid grid =
     (if length grid \<noteq> BOARD_SIZE then Inl (LengthError (length grid)) else mapCells grid)"

text \<open>The alphabet of the specification and the cell each of its characters denotes.\<close>

definition grid_alphabet :: "char set" where
  "grid_alphabet = set ''.-0123456789''"

definition cell_of_char :: "char \<Rightarrow> nat option" where
  "cell_of_char c =
     (if c = CHR ''.'' \<or> c = CHR ''-'' \<or> c = CHR ''0'' then None else Some (of_char c - 48))"

section \<open>Conflict detection (src/utils/sudoku.ts)\<close>

text \<open>
  \<^verbatim>\<open>values[idx]\<close> beyond the end of the array is \<^verbatim>\<open>undefined\<close>, which
  \<^verbatim>\<open>value == null\<close> treats as an empty cell.
\<close>

definition cell :: "nat option list \<Rightarrow> nat \<Rightarrow> nat option" where
  "cell vals idx = (if idx < length vals then vals ! idx else None)"

text \<open>
  The \<^verbatim>\<open>Map<number, number[]>\<close> is an association list in insertion order:
  \<^verbatim>\<open>byValue.set\<close> replaces the entry of a key in place and appends a new key.
\<close>

fun map_set :: "nat \<Rightarrow> nat list \<Rightarrow> (nat \<times> nat list) list \<Rightarrow> (nat \<times> nat list) list" where
  "map_set k v [] = [(k, v)]"
| "map_set k v (p # ps) = (if fst p = k then (k, v) # ps else p # map_set k v ps)"

definition map_get :: "(nat \<times> nat list) list \<Rightarrow> nat \<Rightarrow> nat list option" where
  "map_get byValue k = map_of byValue k"

fun groupByValue ::
  "nat option list \<Rightarrow> nat list \<Rightarrow> (nat \<times> nat list) list \<Rightarrow> (nat \<times> nat list) list" where
  "groupByValue vals [] byValue = byValue"
| "groupByValue vals (idx # rest) byValue =
     (case cell vals idx of
        None \<Rightarrow> groupByValue vals rest byValue
      | Some v \<Rightarrow>
          (let list = (case map_get byValue v of None \<Rightarrow> [] | Some l \<Rightarrow> l)
           in groupByValue vals rest (map_set v (list @ [idx]) byValue)))"

text \<open>The \<^verbatim>\<open>Set<number>\<close> of conflicts is a duplicate-free list in insertion order.\<close>

definition set_add :: "nat \<Rightarrow> nat list \<Rightarrow> nat list" where
  "set_add x s = (if x \<in> set s then s else s @ [x])"

definition markDupes :: "nat list \<Rightarrow> nat list \<Rightarrow> nat list" where
  "markDupes dupes conflicts = (if 1 < length dupes then fold set_add dupes conflicts else conflicts)"

definition markGroup :: "nat option list \<Rightarrow> nat list \<Rightarrow> nat list \<Rightarrow> nat list" where
  "markGroup vals indices conflicts =
     fold markDupes (map snd (groupByValue vals indices [])) conflicts"

definition rowIndices :: "nat \<Rightarrow> nat list" where
  "rowIndices row = map (\<lambda>col. row * 9 + col) [0..<9]"

definition colIndices :: "nat \<Rightarrow> nat list" where
  "colIndices col = map (\<lambda>row. row * 9 + col) [0..<9]"

definition boxIndices :: "nat \<Rightarrow> nat \<Rightarrow> nat list" where
  "boxIndices boxRow boxCol =
     concat (map (\<lambda>row. map (\<lambda>col. (boxRow * 3 + row) * 9 + (boxCol * 3 + col)) [0..<3]) [0..<3])"

definition computeConflicts :: "nat option list \<Rightarrow> nat list" where
  "computeConflicts vals =
     (let c1 = fold (\<lambda>row. markGroup vals (rowIndices row)) [0..<9] [];
          c2 = fold (\<lambda>col. markGroup vals (colIndices col)) [0..<9] c1
      in fold (\<lambda>boxRow c. fold (\<lambda>boxCol. markGroup vals (boxIndices boxRow boxCol)) [0..<3] c)
           [0..<3] c2)"

text \<open>Row, column and box of a flat index, and the relation "in a common constraint group".\<close>

definition same_group :: "nat \<Rightarrow> nat \<Rightarrow> bool" where
  "same_group i j \<longleftrightarrow>
     i div 9 = j div 9 \<or> i mod 9 = j mod 9 \<or>
     (i div 9 div 3 = j div 9 div 3 \<and> i mod 9 div 3 = j mod 9 div 3)"

text \<open>
  The 27 constraint groups in the order the three loops visit them, the indices of a
  group that share their value with another index of the group, and a grid with the
  digit 5 in its first two cells.
\<close>

definition constraint_groups :: "nat list list" where
  "constraint_groups =
     map rowIndices [0..<9] @ map colIndices [0..<9] @
     concat (map (\<lambda>boxRow. map (\<lambda>boxCol. boxIndices boxRow boxCol) [0..<3]) [0..<3])"

definition dupes_in :: "nat option list \<Rightarrow> nat list \<Rightarrow> nat set" where
  "dupes_in vals g =
     {i \<in> set g. \<exists>v. cell vals i = Some v \<and> 1 < length (filter (\<lambda>k. cell vals k = Some v) g)}"

definition pair_grid :: "nat option list" where
  "pair_grid = Some 5 # Some 5 # replicate 79 None"

section \<open>Game session and history (the App component)\<close>

datatype Difficulty = Easy | Medium | Hard

text \<open>The record \<^verbatim>\<open>{id, difficulty, puzzle, solution}\<close> of a puzzle pack.\<close>

record Puzzle =
  puzzle_id :: string
  puzzle_difficulty :: Difficulty
  puzzle_grid :: string
  solution :: string

record Snapshot =
  snap_entries :: "nat option list"
  snap_notes :: "nat list list"

text \<open>
  The fields \<^verbatim>\<open>undo\<close>, \<^verbatim>\<open>redo\<close> and \<^verbatim>\<open>notes\<close> are \<open>undo_stack\<close>, \<open>redo_stack\<close>
  and \<open>cellNotes\<close> here; the two stacks are arrays whose top is their last element.
\<close>

record GameSession =
  difficulty :: Difficulty
  puzzleIndex :: nat
  puzzle :: Puzzle
  givens :: "bool list"
  entries :: "nat option list"
  cellNotes :: "nat list list"
  selected :: "nat option"
  notesMode :: bool
  undo_stack :: "Snapshot list"
  redo_stack :: "Snapshot list"
  elapsedSeconds :: nat

text \<open>
  Every state update is \<^verbatim>\<open>setSession((prev) => ...)\<close>, and every updater returns a
  \<^verbatim>\<open>null\<close> session as it is; \<open>on_session\<close> is that branch, and the functions below
  are the updaters on a session that is not \<^verbatim>\<open>null\<close>.
\<close>

definition on_session :: "(GameSession \<Rightarrow> GameSession) \<Rightarrow> GameSession option \<Rightarrow> GameSession option" where
  "on_session f prev = (case prev of None \<Rightarrow> None | Some p \<Rightarrow> Some (f p))"

text \<open>
  Array accesses as JavaScript has them: a read beyond the end gives \<^verbatim>\<open>undefined\<close>
  (falsy for \<^verbatim>\<open>givens\<close>, an empty iterable for \<^verbatim>\<open>new Set\<close>), a write beyond the end
  extends the array, leaving holes.
\<close>

definition array_set :: "'a \<Rightarrow> 'a list \<Rightarrow> nat \<Rightarrow> 'a \<Rightarrow> 'a list" where
  "array_set hole xs i v =
     (if i < length xs then xs[i := v] else xs @ replicate (i - length xs) hole @ [v])"

definition given_at :: "bool list \<Rightarrow> nat \<Rightarrow> bool" where
  "given_at gs i \<longleftrightarrow> i < length gs \<and> gs ! i"

definition notes_at :: "nat list list \<Rightarrow> nat \<Rightarrow> nat list" where
  "notes_at ns i = (if i < length ns then ns ! i else [])"

definition snapshotOf :: "GameSession \<Rightarrow> Snapshot" where
  "snapshotOf session = \<lparr>snap_entries = entries session, snap_notes = cellNotes session\<rparr>"

definition applyWithHistory :: "(GameSession \<Rightarrow> GameSession) \<Rightarrow> GameSession \<Rightarrow> GameSession" where
  "applyWithHistory mutator prev =
     (let draft = prev;
          before = snapshotOf draft;
          draft = mutator draft;
          draft = draft\<lparr>undo_stack := undo_stack draft @ [before]\<rparr>;
          draft = (if 200 < length (undo_stack draft)
                   then draft\<lparr>undo_stack := tl (undo_stack draft)\<rparr> else draft)
      in draft\<lparr>redo_stack := []\<rparr>)"

definition toggleNote :: "nat \<Rightarrow> nat list \<Rightarrow> nat list" where
  "toggleNote v current =
     (let ns = fold set_add current [];
          ns = (if v \<in> set ns then removeAll v ns else ns @ [v])
      in sort ns)"

definition applyNumber_mutator :: "nat \<Rightarrow> GameSession \<Rightarrow> GameSession" where
  "applyNumber_mutator v draft =
     (case selected draft of
        None \<Rightarrow> draft
      | Some index \<Rightarrow>
          if given_at (givens draft) index then draft
          else if notesMode draft then
            draft\<lparr>cellNotes := array_set [] (cellNotes draft) index (toggleNote v (notes_at (cellNotes draft) index))\<rparr>
          else
            draft\<lparr>entries := array_set None (entries draft) index (Some v),
                  cellNotes := array_set [] (cellNotes draft) index []\<rparr>)"

definition applyNumber :: "nat \<Rightarrow> GameSession \<Rightarrow> GameSession" where
  "applyNumber v = applyWithHistory (applyNumber_mutator v)"

definition clearCell_mutator :: "GameSession \<Rightarrow> GameSession" where
  "clearCell_mutator draft =
     (case selected draft of
        None \<Rightarrow> draft
      | Some index \<Rightarrow>
          if given_at (givens draft) index then draft
          else draft\<lparr>entries := array_set None (entries draft) index None,
                     cellNotes := array_set [] (cellNotes draft) index []\<rparr>)"

definition clearCell :: "GameSession \<Rightarrow> GameSession" where
  "clearCell = applyWithHistory clearCell_mutator"

definition undo :: "GameSession \<Rightarrow> GameSession" where
  "undo prev =
     (if length (undo_stack prev) = 0 then prev
      else let current = snapshotOf prev;
               previous = last (undo_stack prev)
           in prev\<lparr>entries := snap_entries previous,
                   cellNotes := snap_notes previous,
                   undo_stack := butlast (undo_stack prev),
                   redo_stack := redo_stack prev @ [current]\<rparr>)"

definition redo :: "GameSession \<Rightarrow> GameSession" where
  "redo prev =
     (if length (redo_stack prev) = 0 then prev
      else let current = snapshotOf prev;
               next = last (redo_stack prev)
           in prev\<lparr>entries := snap_entries next,
                   cellNotes := snap_notes next,
                   undo_stack := undo_stack prev @ [current],
                   redo_stack := butlast (redo_stack prev)\<rparr>)"

text \<open>
  \<^verbatim>\<open>createSession\<close>. The puzzle packs are data files that are not part of the sources,
  so they are a parameter. \<^verbatim>\<open>%\<close> is the truncating remainder; on an empty pack the
  index is NaN, the puzzle \<^verbatim>\<open>undefined\<close>, and reading its field throws.
\<close>

datatype session_error = TypeError | ParseError error

definition js_rem :: "int \<Rightarrow> int \<Rightarrow> int" where
  "js_rem a b = sgn a * (\<bar>a\<bar> mod \<bar>b\<bar>)"

definition puzzleAt :: "(Difficulty \<Rightarrow> Puzzle list) \<Rightarrow> Difficulty \<Rightarrow> int \<Rightarrow> session_error + (Puzzle \<times> nat)" where
  "puzzleAt puzzlePacks d index =
     (let pack = puzzlePacks d; len = int (length pack)
      in if len = 0 then Inl TypeError
         else let safeIndex = nat (js_rem (js_rem index len + len) len)
              in Inr (pack ! safeIndex, safeIndex))"

definition createSession :: "(Difficulty \<Rightarrow> Puzzle list) \<Rightarrow> Difficulty \<Rightarrow> int \<Rightarrow> session_error + GameSession" where
  "createSession puzzlePacks d pIndex =
     (case puzzleAt puzzlePacks d pIndex of
        Inl e \<Rightarrow> Inl e
      | Inr (pz, index) \<Rightarrow>
          (case parseGrid (puzzle_grid pz) of
             Inl e \<Rightarrow> Inl (ParseError e)
           | Inr es \<Rightarrow>
               Inr \<lparr>difficulty = d, puzzleIndex = index, puzzle = pz,
                    givens = map (\<lambda>v. v \<noteq> None) es, entries = es,
                    cellNotes = replicate 81 [], selected = None, notesMode = False,
                    undo_stack = [], redo_stack = [], elapsedSeconds = 0\<rparr>))"

text \<open>
  The updates a session receives while it is played. \<open>Select\<close> stands for a click on a
  cell and for the arrow keys, which both only assign \<^verbatim>\<open>selected\<close>.
\<close>

datatype Event = Select nat | ToggleNotesMode | Tick | ApplyNumber nat | ClearCell | Undo | Redo

fun step :: "Event \<Rightarrow> GameSession \<Rightarrow> GameSession" where
  "step (Select i) prev = prev\<lparr>selected := Some i\<rparr>"
| "step ToggleNotesMode prev = prev\<lparr>notesMode := \<not> notesMode prev\<rparr>"
| "step Tick prev = prev\<lparr>elapsedSeconds := elapsedSeconds prev + 1\<rparr>"
| "step (ApplyNumber v) prev = applyNumber v prev"
| "step ClearCell prev = clearCell prev"
| "step Undo prev = undo prev"
| "step Redo prev = redo prev"

definition run :: "Event list \<Rightarrow> GameSession \<Rightarrow> GameSession" where
  "run evs session = fold step evs session"

text \<open>The events that record history, and the snapshots a run of events is applied to.\<close>

fun recording :: "Event \<Rightarrow> bool" where
  "recording (ApplyNumber v) = True"
| "recording ClearCell = True"
| "recording _ = False"

fun states_before :: "Event list \<Rightarrow> GameSession \<Rightarrow> GameSession list" where
  "states_before [] session = []"
| "states_before (e # es) session = session # states_before es (step e session)"

text \<open>
  The invariant behind the immutability of givens: a snapshot agrees with the initial
  entries on every given cell and has no notes there; a session satisfies it when its
  current state and every snapshot of its two stacks do.
\<close>

definition keeps_givens :: "bool list \<Rightarrow> nat option list \<Rightarrow> Snapshot \<Rightarrow> bool" where
  "keeps_givens gs es0 sn \<longleftrightarrow>
     (\<forall>i. given_at gs i \<longrightarrow>
        i < length (snap_entries sn) \<and> snap_entries sn ! i = es0 ! i \<and>
        i < length (snap_notes sn) \<and> snap_notes sn ! i = [])"

definition session_inv :: "bool list \<Rightarrow> nat option list \<Rightarrow> GameSession \<Rightarrow> bool" where
  "session_inv gs es0 s \<longleftrightarrow>
     givens s = gs \<and> keeps_givens gs es0 (snapshotOf s) \<and>
     (\<forall>sn \<in> set (undo_stack s) \<union> set (redo_stack s). keeps_givens gs es0 sn)"

text \<open>A concrete session for the closed instances below.\<close>

definition demo_puzzle :: Puzzle where
  "demo_puzzle =
     \<lparr>puzzle_id = ''easy-1'', puzzle_difficulty = Easy,
      puzzle_grid = ''53..7....6..195....98....6.8...6...34..8.3..17...2...6.6....28....419..5....8..79'',
      solution = ''534678912672195348198342567859761423426853791713924856961537284287419635345286179''\<rparr>"

definition demo_packs :: "Difficulty \<Rightarrow> Puzzle list" where
  "demo_packs d = [demo_puzzle]"

definition demo_session :: GameSession where
  "demo_session =
     \<lparr>difficulty = Easy, puzzleIndex = 0, puzzle = demo_puzzle,
      givens = map (\<lambda>c. cell_of_char c \<noteq> None) (puzzle_grid demo_puzzle),
      entries = map cell_of_char (puzzle_grid demo_puzzle),
      cellNotes = replicate 81 [], selected = None, notesMode = False,
      undo_stack = [], redo_stack = [], elapsedSeconds = 0\<rparr>"

text \<open>
  250 recorded actions whose snapshots differ: on a selected free cell, the \<open>k\<close>-th
  one enters the digit \<open>k mod 9 + 1\<close>.
\<close>

definition digit_events :: "Event list" where
  "digit_events = map (\<lambda>k. ApplyNumber (k mod 9 + 1)) [0..<250]"

section \<open>Puzzle generator (the pack generation script)\<close>

definition knownSolutions :: "string list" where
  "knownSolutions =
     [''534678912672195348198342567859761423426853791713924856961537284287419635345286179'',
      ''417369825632158947958724316825437169791586432346912758289643571573291684164875293'',
      ''295743861431865927876192543387459216612387495549216738763524189928671354154938672'']"

subsection \<open>Double-precision arithmetic\<close>

text \<open>
  JavaScript numbers are IEEE 754 binary64 values. A finite non-negative double is
  modelled by the rational it denotes, and an operation by the exact result rounded to
  the nearest double, ties to even: \<open>expo x\<close> is the binary exponent of a positive \<open>x\<close>,
  its unit in the last place is \<open>2 powi (expo x - 52)\<close>, and \<open>rne\<close> rounds the significand
  to an integer. Every value that occurs below lies between \<open>2 powi -32\<close> and 81, far
  from the subnormal and overflow ranges, which are not modelled.
\<close>

definition rne :: "rat \<Rightarrow> int" where
  "rne x =
     (let f = \<lfloor>x\<rfloor>; d = x - of_int f
      in if d < 1 / 2 then f else if 1 / 2 < d then f + 1 else if even f then f else f + 1)"

definition expo :: "rat \<Rightarrow> int" where
  "expo x =
     (case quotient_of x of
        (a, b) \<Rightarrow> let d = bitlen a - bitlen b in if 2 powi d \<le> x then d else d - 1)"

definition round_double :: "rat \<Rightarrow> rat" where
  "round_double x =
     (if x = 0 then 0 else let u = 2 powi (expo x - 52) in of_int (rne (x / u)) * u)"

subsection \<open>The seeded generator and \<^verbatim>\<open>carve\<close>\<close>

text \<open>
  \<^verbatim>\<open>seed >>> 0\<close> on an integer. The state of the generator is an integer below \<open>2 ^ 32\<close>;
  \<^verbatim>\<open>state * 1664525 + 1013904223\<close> stays below \<open>2 ^ 53\<close> and is therefore exact in
  double arithmetic (\<open>lcg_exact\<close> below), and \<^verbatim>\<open>>>> 0\<close> reduces it modulo \<open>2 ^ 32\<close>.
\<close>

definition to_uint32 :: "int \<Rightarrow> int" where
  "to_uint32 n = n mod 2 ^ 32"

definition lcg_next :: "int \<Rightarrow> int" where
  "lcg_next state = (state * 1664525 + 1013904223) mod 2 ^ 32"

text \<open>
  One call of the closure \<^verbatim>\<open>rand\<close>: the new state and the returned value
  \<^verbatim>\<open>state / 0xffffffff\<close>.
\<close>

definition rand :: "int \<Rightarrow> int \<times> rat" where
  "rand state = (let state = lcg_next state in (state, round_double (of_int state / 4294967295)))"

text \<open>
  \<^verbatim>\<open>indices\<close> is an array of numbers in which a read beyond the end gives
  \<^verbatim>\<open>undefined\<close> (\<^term>\<open>None\<close>) and a write beyond the end extends the array. The swap
  \<^verbatim>\<open>[indices[i], indices[j]] = [indices[j], indices[i]]\<close> reads both elements, then
  writes \<^verbatim>\<open>indices[i]\<close>, then \<^verbatim>\<open>indices[j]\<close>.
\<close>

definition array_get :: "'a option list \<Rightarrow> nat \<Rightarrow> 'a option" where
  "array_get xs i = (if i < length xs then xs ! i else None)"

definition swap_indices :: "nat option list \<Rightarrow> nat \<Rightarrow> nat \<Rightarrow> nat option list" where
  "swap_indices indices i j =
     (let a = array_get indices j; b = array_get indices i
      in array_set None (array_set None indices i a) j b)"

text \<open>The loop \<^verbatim>\<open>for (let i = indices.length - 1; i > 0; i -= 1)\<close>, started at \<open>i\<close>.\<close>

fun shuffle_loop :: "nat \<Rightarrow> int \<Rightarrow> nat option list \<Rightarrow> nat option list" where
  "shuffle_loop 0 state indices = indices"
| "shuffle_loop (Suc k) state indices =
     (let i = Suc k;
          (state, r) = rand state;
          j = nat \<lfloor>round_double (r * of_nat (i + 1))\<rfloor>
      in shuffle_loop k state (swap_indices indices i j))"

text \<open>
  \<^verbatim>\<open>chars\<close> is an array of one-character strings; a hole joins as the empty string.
  \<^verbatim>\<open>chars[undefined] = '.'\<close> sets a property, not an element, and \<^verbatim>\<open>join\<close> does not
  see it.
\<close>

definition blank_at :: "nat option list \<Rightarrow> nat \<Rightarrow> string list \<Rightarrow> string list" where
  "blank_at indices i chars =
     (case array_get indices i of None \<Rightarrow> chars | Some k \<Rightarrow> array_set [] chars k ''.'')"

definition carve :: "string \<Rightarrow> int \<Rightarrow> int \<Rightarrow> string" where
  "carve sol blanks seed =
     (let indices = map Some [0..<81];
          indices = shuffle_loop (length indices - 1) (to_uint32 seed) indices;
          chars = map (\<lambda>c. [c]) sol;
          chars = fold (blank_at indices) [0..<nat blanks] chars
      in concat chars)"

subsection \<open>\<^verbatim>\<open>generateFallback\<close>\<close>



text \<open>The decimal digits of a number, as the template literal prints it.\<close>

definition digit_char :: "nat \<Rightarrow> char" where
  "digit_char n = char_of (48 + n)"




subsection \<open>The reference algorithm of the specification\<close>

text \<open>
  The carving algorithm in the words of the specification: the states of the
  linear-congruential recurrence started from the seed, the stream value
  \<open>state / (2 ^ 32 - 1)\<close>, a Fisher-Yates shuffle of the indices 0 to 80 that takes the
  \<open>k\<close>-th stream value for position \<open>81 - k\<close>, and the blanking of the first indices of the
  shuffled order. The parameter \<open>rnd\<close> is the rounding applied to the quotient and to the
  product: the identity gives the algorithm in exact arithmetic, \<open>round_double\<close> gives it
  in double arithmetic.
\<close>

definition spec_state :: "int \<Rightarrow> nat \<Rightarrow> int" where
  "spec_state seed k = ((\<lambda>state. (state * 1664525 + 1013904223) mod 2 ^ 32) ^^ k) seed"

definition spec_stream :: "(rat \<Rightarrow> rat) \<Rightarrow> int \<Rightarrow> nat \<Rightarrow> rat" where
  "spec_stream rnd seed k = rnd (of_int (spec_state seed k) / (2 ^ 32 - 1))"

definition swap :: "nat list \<Rightarrow> nat \<Rightarrow> nat \<Rightarrow> nat list" where
  "swap p i j = p[i := p ! j, j := p ! i]"

definition fisher_yates :: "(rat \<Rightarrow> rat) \<Rightarrow> (nat \<Rightarrow> rat) \<Rightarrow> nat list" where
  "fisher_yates rnd stream =
     fold (\<lambda>k p. let i = 81 - k; j = nat \<lfloor>rnd (stream k * of_nat (i + 1))\<rfloor> in swap p i j)
       [1..<81] [0..<81]"

definition carve_spec :: "(rat \<Rightarrow> rat) \<Rightarrow> string \<Rightarrow> int \<Rightarrow> int \<Rightarrow> string" where
  "carve_spec rnd sol blankCount seed =
     (let order = fisher_yates rnd (spec_stream rnd seed)
      in map (\<lambda>k. if k \<in> set (take (nat blankCount) order) then CHR ''.'' else sol ! k)
           [0..<length sol])"

subsection \<open>Auxiliary functions of the proofs\<close>

text \<open>
  The index drawn for position \<open>n - 1\<close> from a state, the shuffle loop on a list of
  numbers whose swaps all stay within the list, the condition that they do, and one step
  of the reference shuffle in double arithmetic.
\<close>

definition pick :: "int \<Rightarrow> nat \<Rightarrow> nat" where
  "pick state n = nat \<lfloor>round_double (round_double (of_int state / 4294967295) * of_nat n)\<rfloor>"

fun shuffle_pure :: "nat \<Rightarrow> int \<Rightarrow> nat list \<Rightarrow> nat list" where
  "shuffle_pure 0 s p = p"
| "shuffle_pure (Suc k) s p =
     shuffle_pure k (lcg_next s) (swap p (Suc k) (pick (lcg_next s) (Suc k + 1)))"

fun draws_below :: "nat \<Rightarrow> nat \<Rightarrow> int \<Rightarrow> bool" where
  "draws_below m 0 s \<longleftrightarrow> True"
| "draws_below m (Suc k) s \<longleftrightarrow>
     pick (lcg_next s) (Suc k + 1) < m \<and> draws_below m k (lcg_next s)"

definition fy_step :: "int \<Rightarrow> nat \<Rightarrow> nat list \<Rightarrow> nat list" where
  "fy_step seed k p =
     (let i = 81 - k;
          j = nat \<lfloor>round_double (spec_stream round_double seed k * of_nat (i + 1))\<rfloor>
      in swap p i j)"

text \<open>
  A draw is \<open>generic\<close> when the quotient \<open>state / (2 ^ 32 - 1)\<close>, cut to 40 binary
  digits, times \<open>n\<close> has the same integer part as its successor times \<open>n\<close>: then the
  two roundings cannot move the product across an integer, and the drawn index is
  \<open>pick_int\<close>, computed in integers. \<open>pick_fast\<close> and \<open>shuffle_fast\<close> compute the draws
  and the shuffle in this way wherever they can. \<open>pick_exact\<close>, \<open>shuffle_exact\<close> and
  \<open>fy_step_exact\<close> are the draw, the shuffle and one step of the reference shuffle in
  exact arithmetic.
\<close>

definition generic :: "int \<Rightarrow> nat \<Rightarrow> bool" where
  "generic s n \<longleftrightarrow>
     0 \<le> s \<and> s \<le> 4294967295 \<and> n \<le> 81 \<and>
     (s * 2 ^ 40 div 4294967295 + 1) * int n div 2 ^ 40 = s * 2 ^ 40 div 4294967295 * int n div 2 ^ 40"

definition pick_int :: "int \<Rightarrow> nat \<Rightarrow> nat" where
  "pick_int s n = nat (s * 2 ^ 40 div 4294967295 * int n div 2 ^ 40)"

definition pick_fast :: "int \<Rightarrow> nat \<Rightarrow> nat" where
  "pick_fast s n = (if generic s n then pick_int s n else pick s n)"

fun shuffle_fast :: "nat \<Rightarrow> int \<Rightarrow> nat list \<Rightarrow> nat list" where
  "shuffle_fast 0 s p = p"
| "shuffle_fast (Suc k) s p =
     shuffle_fast k (lcg_next s) (swap p (Suc k) (pick_fast (lcg_next s) (Suc k + 1)))"

definition pick_exact :: "int \<Rightarrow> nat \<Rightarrow> nat" where
  "pick_exact s n = nat (s * int n div 4294967295)"

fun shuffle_exact :: "nat \<Rightarrow> int \<Rightarrow> nat list \<Rightarrow> nat list" where
  "shuffle_exact 0 s p = p"
| "shuffle_exact (Suc k) s p =
     shuffle_exact k (lcg_next s) (swap p (Suc k) (pick_exact (lcg_next s) (Suc k + 1)))"

definition fy_step_exact :: "int \<Rightarrow> nat \<Rightarrow> nat list \<Rightarrow> nat list" where
  "fy_step_exact seed k p =
     (let i = 81 - k;
          j = nat \<lfloor>id (spec_stream id seed k * of_nat (i + 1))\<rfloor>
      in swap p i j)"

section \<open>Parsing: proofs\<close>

lemma digit_char:
  assumes "49 \<le> (of_char c :: nat)" "(of_char c :: nat) \<le> 57"
  shows "c \<in> set ''123456789''"
proof -
  have inj: "inj (of_char :: char \<Rightarrow> nat)"
    by (simp add: inj_on_def)
  from assms have "(of_char c :: nat) \<in> {49, 50, 51, 52, 53, 54, 55, 56, 57}"
    by (simp; arith)
  also have "{49, 50, 51, 52, 53, 54, 55, 56, 57} = (of_char ` set ''123456789'' :: nat set)"
    by simp
  finally show ?thesis
    by (simp only: inj_image_mem_iff [OF inj])
qed

lemma parseCell_Inr_iff: "(\<exists>v. parseCell c = Inr v) \<longleftrightarrow> c \<in> grid_alphabet"
proof
  assume "\<exists>v. parseCell c = Inr v"
  then obtain v where v: "parseCell c = Inr v" ..
  show "c \<in> grid_alphabet"
  proof (cases "c = CHR ''.'' \<or> c = CHR ''-'' \<or> c = CHR ''0''")
    case True
    then show ?thesis by (auto simp: grid_alphabet_def)
  next
    case False
    with v have "49 \<le> (of_char c :: nat)" "(of_char c :: nat) \<le> 57"
      by (auto simp: parseCell_def Number_char_def split: option.splits if_splits)
    then have "c \<in> set ''123456789''"
      by (rule digit_char)
    then show ?thesis
      unfolding grid_alphabet_def by auto
  qed
next
  assume "c \<in> grid_alphabet"
  then show "\<exists>v. parseCell c = Inr v"
    by (auto simp: grid_alphabet_def parseCell_def Number_char_def)
qed

lemma parseCell_value: "parseCell c = Inr v \<Longrightarrow> v = cell_of_char c"
  by (auto simp: parseCell_def cell_of_char_def Number_char_def is_js_whitespace_def
      split: option.splits if_splits)

lemma mapCells_Inr_iff: "(\<exists>g. mapCells s = Inr g) \<longleftrightarrow> set s \<subseteq> grid_alphabet"
proof (induction s)
  case Nil
  show ?case by simp
next
  case (Cons c cs)
  have "(\<exists>g. mapCells (c # cs) = Inr g) \<longleftrightarrow> (\<exists>v. parseCell c = Inr v) \<and> (\<exists>g. mapCells cs = Inr g)"
    by (auto split: sum.splits)
  with Cons show ?case
    by (simp add: parseCell_Inr_iff)
qed

lemma mapCells_value: "mapCells s = Inr g \<Longrightarrow> g = map cell_of_char s"
proof (induction s arbitrary: g)
  case Nil
  then show ?case by simp
next
  case (Cons c cs)
  then show ?case
    by (auto split: sum.splits dest: parseCell_value)
qed

lemma parseGrid_Inr: "parseGrid s = Inr g \<Longrightarrow> length s = 81 \<and> g = map cell_of_char s"
  by (auto simp: parseGrid_def BOARD_SIZE_def split: if_splits dest: mapCells_value)

lemma parseGrid_ok:
  assumes "length s = 81" "set s \<subseteq> grid_alphabet"
  shows "parseGrid s = Inr (map cell_of_char s)"
proof -
  from assms(2) obtain g where g: "mapCells s = Inr g"
    using mapCells_Inr_iff [of s] by blast
  then have "g = map cell_of_char s"
    by (rule mapCells_value)
  with g assms(1) show ?thesis
    by (simp add: parseGrid_def BOARD_SIZE_def)
qed

text \<open>
  C6. \<^verbatim>\<open>parseGrid\<close> succeeds exactly on the strings of 81 characters over the alphabet
  \<^verbatim>\<open>.-0123456789\<close>; every other string is answered with an error; on success the grid
  has 81 cells and cell \<open>i\<close> is the one character \<open>i\<close> denotes (empty for \<^verbatim>\<open>.\<close>,
  \<^verbatim>\<open>-\<close>, \<^verbatim>\<open>0\<close>, the digit's value for \<^verbatim>\<open>1\<close> to \<^verbatim>\<open>9\<close>).
\<close>

theorem parseGrid_format:
  "((\<exists>g. parseGrid s = Inr g) \<longleftrightarrow> length s = 81 \<and> set s \<subseteq> grid_alphabet) \<and>
   (\<not> (length s = 81 \<and> set s \<subseteq> grid_alphabet) \<longrightarrow> (\<exists>e. parseGrid s = Inl e)) \<and>
   (\<forall>g. parseGrid s = Inr g \<longrightarrow>
      length g = 81 \<and> (\<forall>i<81. g ! i = cell_of_char (s ! i)))"
proof (intro conjI allI impI)
  show iff: "(\<exists>g. parseGrid s = Inr g) \<longleftrightarrow> length s = 81 \<and> set s \<subseteq> grid_alphabet"
    using mapCells_Inr_iff [of s] by (auto simp: parseGrid_def BOARD_SIZE_def)
  show "\<exists>e. parseGrid s = Inl e" if "\<not> (length s = 81 \<and> set s \<subseteq> grid_alphabet)"
    using that iff by (cases "parseGrid s") auto
next
  fix g assume g: "parseGrid s = Inr g"
  then have len: "length s = 81" and m: "mapCells s = Inr g"
    by (auto simp: parseGrid_def BOARD_SIZE_def split: if_splits)
  from m have eq: "g = map cell_of_char s"
    by (rule mapCells_value)
  show "length g = 81"
    by (simp add: eq len)
  show "g ! i = cell_of_char (s ! i)" if "i < 81" for i
    using that by (simp add: eq len)
qed

theorem parseGrid_format_witness:
  "(\<exists>g. parseGrid ''53..7....6..195....98....6.8...6...34..8.3..17...2...6.6....28....419..5....8..79'' = Inr g
      \<and> length g = 81 \<and> g ! 0 = Some 5 \<and> g ! 2 = None) \<and>
   (\<exists>e. parseGrid ''53..7....6..195....98....6.8...6...34..8.3..17...2...6.6....28....419..5....8..7x'' = Inl e)"
proof -
  let ?s = "''53..7....6..195....98....6.8...6...34..8.3..17...2...6.6....28....419..5....8..79''"
  let ?t = "''53..7....6..195....98....6.8...6...34..8.3..17...2...6.6....28....419..5....8..7x''"
  have ok: "length ?s = 81 \<and> set ?s \<subseteq> grid_alphabet"
    by (simp add: grid_alphabet_def)
  with parseGrid_format [of ?s] obtain g where g: "parseGrid ?s = Inr g"
    by blast
  with parseGrid_format [of ?s] have "length g = 81" "g ! 0 = cell_of_char (?s ! 0)"
    "g ! 2 = cell_of_char (?s ! 2)"
    by simp_all
  then have "length g = 81 \<and> g ! 0 = Some 5 \<and> g ! 2 = None"
    by (simp add: cell_of_char_def)
  with g have first: "\<exists>g. parseGrid ?s = Inr g \<and> length g = 81 \<and> g ! 0 = Some 5 \<and> g ! 2 = None"
    by blast
  have "\<not> (length ?t = 81 \<and> set ?t \<subseteq> grid_alphabet)"
    by (simp add: grid_alphabet_def)
  with parseGrid_format [of ?t] have "\<exists>e. parseGrid ?t = Inl e"
    by blast
  with first show ?thesis
    by blast
qed

section \<open>History and session: proofs\<close>

lemma mutator_frame:
  "undo_stack (applyNumber_mutator v d) = undo_stack d"
  "redo_stack (applyNumber_mutator v d) = redo_stack d"
  "givens (applyNumber_mutator v d) = givens d"
  "selected (applyNumber_mutator v d) = selected d"
  "undo_stack (clearCell_mutator d) = undo_stack d"
  "redo_stack (clearCell_mutator d) = redo_stack d"
  "givens (clearCell_mutator d) = givens d"
  "selected (clearCell_mutator d) = selected d"
  by (simp_all add: applyNumber_mutator_def clearCell_mutator_def split: option.splits)

lemma applyWithHistory_stacks:
  "redo_stack (applyWithHistory m p) = []"
  "undo_stack (applyWithHistory m p) =
     (if 200 < length (undo_stack (m p) @ [snapshotOf p])
      then tl (undo_stack (m p) @ [snapshotOf p]) else undo_stack (m p) @ [snapshotOf p])"
  "snapshotOf (applyWithHistory m p) = snapshotOf (m p)"
  "givens (applyWithHistory m p) = givens (m p)"
  by (simp_all add: applyWithHistory_def Let_def snapshotOf_def)

lemma applyWithHistory_last:
  "undo_stack (applyWithHistory m p) \<noteq> [] \<and> last (undo_stack (applyWithHistory m p)) = snapshotOf p"
proof -
  let ?u = "undo_stack (m p) @ [snapshotOf p]"
  have "200 < length ?u \<Longrightarrow> tl ?u \<noteq> [] \<and> last (tl ?u) = snapshotOf p"
    by (cases "undo_stack (m p)") (auto simp: last_tl)
  then show ?thesis
    by (simp add: applyWithHistory_stacks)
qed

lemma step_recording:
  assumes "recording e"
  shows "redo_stack (step e p) = []"
    and "undo_stack (step e p) \<noteq> []"
    and "last (undo_stack (step e p)) = snapshotOf p"
  using assms
  by (cases e; simp add: applyNumber_def clearCell_def applyWithHistory_stacks(1) applyWithHistory_last)+

lemma snapshot_eta: "\<lparr>snap_entries = snap_entries x, snap_notes = snap_notes x\<rparr> = (x :: Snapshot)"
  by (cases x) simp

lemma redo_undo: "undo_stack p \<noteq> [] \<Longrightarrow> redo (undo p) = p"
  by (simp add: undo_def redo_def Let_def snapshotOf_def snapshot_eta)

lemma undo_redo: "redo_stack p \<noteq> [] \<Longrightarrow> undo (redo p) = p"
  by (simp add: undo_def redo_def Let_def snapshotOf_def snapshot_eta)

lemma undo_snapshot: "undo_stack p \<noteq> [] \<Longrightarrow> snapshotOf (undo p) = last (undo_stack p)"
  by (simp add: undo_def Let_def snapshotOf_def)

text \<open>
  C4. On every session: \<open>undo\<close> with a non-empty undo stack makes the most recent undo
  snapshot the current entries and notes, removes it from the undo stack and pushes the
  replaced state onto the redo stack; with an empty undo stack it changes nothing;
  \<open>redo\<close> is the mirror image, and each undoes the other. A recording action
  (\<open>applyNumber\<close>, \<open>clearCell\<close>) clears the redo stack: after two recordings, \<open>undo\<close>
  shows the state the second one was applied to, \<open>redo\<close> brings the second state back
  entirely, and after a further recording \<open>redo\<close> changes nothing.
\<close>

theorem history_linearity:
  "(undo_stack p \<noteq> [] \<longrightarrow>
      undo p = p\<lparr>entries := snap_entries (last (undo_stack p)),
                 cellNotes := snap_notes (last (undo_stack p)),
                 undo_stack := butlast (undo_stack p),
                 redo_stack := redo_stack p @ [snapshotOf p]\<rparr> \<and>
      redo (undo p) = p) \<and>
   (undo_stack p = [] \<longrightarrow> undo p = p) \<and>
   (redo_stack p \<noteq> [] \<longrightarrow>
      redo p = p\<lparr>entries := snap_entries (last (redo_stack p)),
                 cellNotes := snap_notes (last (redo_stack p)),
                 undo_stack := undo_stack p @ [snapshotOf p],
                 redo_stack := butlast (redo_stack p)\<rparr> \<and>
      undo (redo p) = p) \<and>
   (redo_stack p = [] \<longrightarrow> redo p = p) \<and>
   (\<forall>e1 e2 e3. recording e1 \<and> recording e2 \<and> recording e3 \<longrightarrow>
      redo_stack (step e1 p) = [] \<and>
      redo_stack (step e2 (step e1 p)) = [] \<and>
      snapshotOf (undo (step e2 (step e1 p))) = snapshotOf (step e1 p) \<and>
      redo (undo (step e2 (step e1 p))) = step e2 (step e1 p) \<and>
      redo (step e3 (undo (step e2 (step e1 p)))) = step e3 (undo (step e2 (step e1 p))))"
proof (intro conjI impI allI)
  show "undo p = p\<lparr>entries := snap_entries (last (undo_stack p)),
                 cellNotes := snap_notes (last (undo_stack p)),
                 undo_stack := butlast (undo_stack p),
                 redo_stack := redo_stack p @ [snapshotOf p]\<rparr>" if "undo_stack p \<noteq> []"
    using that by (simp add: undo_def Let_def)
  show "redo (undo p) = p" if "undo_stack p \<noteq> []"
    using that by (rule redo_undo)
  show "undo p = p" if "undo_stack p = []"
    using that by (simp add: undo_def)
  show "redo p = p\<lparr>entries := snap_entries (last (redo_stack p)),
                 cellNotes := snap_notes (last (redo_stack p)),
                 undo_stack := undo_stack p @ [snapshotOf p],
                 redo_stack := butlast (redo_stack p)\<rparr>" if "redo_stack p \<noteq> []"
    using that by (simp add: redo_def Let_def)
  show "undo (redo p) = p" if "redo_stack p \<noteq> []"
    using that by (rule undo_redo)
  show "redo p = p" if "redo_stack p = []"
    using that by (simp add: redo_def)
next
  fix e1 e2 e3
  assume r: "recording e1 \<and> recording e2 \<and> recording e3"
  let ?s1 = "step e1 p" and ?s2 = "step e2 (step e1 p)"
  show "redo_stack ?s1 = []" "redo_stack ?s2 = []"
    using r by (simp_all add: step_recording)
  show "snapshotOf (undo ?s2) = snapshotOf ?s1"
    using r by (simp add: undo_snapshot step_recording)
  show "redo (undo ?s2) = ?s2"
    using r by (simp add: redo_undo step_recording)
  show "redo (step e3 (undo ?s2)) = step e3 (undo ?s2)"
    using r by (simp add: redo_def step_recording)
qed

text \<open>
  C10. When no cell is selected or the selected cell is a given, \<open>applyNumber\<close> and
  \<open>clearCell\<close> leave entries, notes and every other field as they are, and still push
  onto the undo stack (dropping the oldest snapshot beyond 200) the snapshot made of the
  entries and the notes of the current state, which are also those of the state after the
  action, and empty the redo stack.
\<close>

theorem noop_action_recorded:
  "selected p = None \<or> (\<exists>i. selected p = Some i \<and> given_at (givens p) i) \<Longrightarrow>
   applyNumber v p =
     p\<lparr>undo_stack :=
         (if 200 < length (undo_stack p @ [\<lparr>snap_entries = entries p, snap_notes = cellNotes p\<rparr>])
          then tl (undo_stack p @ [\<lparr>snap_entries = entries p, snap_notes = cellNotes p\<rparr>])
          else undo_stack p @ [\<lparr>snap_entries = entries p, snap_notes = cellNotes p\<rparr>]),
       redo_stack := []\<rparr> \<and>
   clearCell p =
     p\<lparr>undo_stack :=
         (if 200 < length (undo_stack p @ [\<lparr>snap_entries = entries p, snap_notes = cellNotes p\<rparr>])
          then tl (undo_stack p @ [\<lparr>snap_entries = entries p, snap_notes = cellNotes p\<rparr>])
          else undo_stack p @ [\<lparr>snap_entries = entries p, snap_notes = cellNotes p\<rparr>]),
       redo_stack := []\<rparr> \<and>
   last (undo_stack (applyNumber v p)) = \<lparr>snap_entries = entries p, snap_notes = cellNotes p\<rparr> \<and>
   last (undo_stack (clearCell p)) = \<lparr>snap_entries = entries p, snap_notes = cellNotes p\<rparr> \<and>
   snap_entries (last (undo_stack (applyNumber v p))) = entries (applyNumber v p) \<and>
   snap_notes (last (undo_stack (applyNumber v p))) = cellNotes (applyNumber v p) \<and>
   snap_entries (last (undo_stack (clearCell p))) = entries (clearCell p) \<and>
   snap_notes (last (undo_stack (clearCell p))) = cellNotes (clearCell p)"
proof -
  assume sel: "selected p = None \<or> (\<exists>i. selected p = Some i \<and> given_at (givens p) i)"
  let ?S = "\<lparr>snap_entries = entries p, snap_notes = cellNotes p\<rparr>"
  have S: "snapshotOf p = ?S"
    by (simp add: snapshotOf_def)
  from sel have m: "applyNumber_mutator v p = p" "clearCell_mutator p = p"
    by (auto simp: applyNumber_mutator_def clearCell_mutator_def)
  have w: "applyWithHistory (\<lambda>d. d) p =
     p\<lparr>undo_stack := (if 200 < length (undo_stack p @ [?S])
                       then tl (undo_stack p @ [?S]) else undo_stack p @ [?S]),
       redo_stack := []\<rparr>"
    by (simp add: applyWithHistory_def Let_def S)
  have eq: "applyNumber v p = applyWithHistory (\<lambda>d. d) p" "clearCell p = applyWithHistory (\<lambda>d. d) p"
    using m by (simp_all add: applyNumber_def clearCell_def applyWithHistory_def Let_def)
  have l: "last (undo_stack (applyNumber v p)) = ?S" "last (undo_stack (clearCell p)) = ?S"
    by (simp_all add: applyNumber_def clearCell_def applyWithHistory_last S)
  have f: "entries (applyNumber v p) = entries p" "cellNotes (applyNumber v p) = cellNotes p"
    "entries (clearCell p) = entries p" "cellNotes (clearCell p) = cellNotes p"
    unfolding eq w by simp_all
  show ?thesis
    unfolding l f using eq w by simp
qed

lemma step_stack_sum:
  "length (undo_stack (step e p)) + length (redo_stack (step e p)) \<le> 200"
  if "length (undo_stack p) + length (redo_stack p) \<le> 200"
proof (cases e)
  case Undo
  then show ?thesis
    using that by (cases "undo_stack p") (simp_all add: undo_def Let_def)
next
  case Redo
  then show ?thesis
    using that by (cases "redo_stack p") (simp_all add: redo_def Let_def)
qed (use that in \<open>auto simp: applyNumber_def clearCell_def applyWithHistory_stacks mutator_frame\<close>)

lemma run_stack_sum:
  "length (undo_stack p) + length (redo_stack p) \<le> 200 \<Longrightarrow>
   length (undo_stack (run evs p)) + length (redo_stack (run evs p)) \<le> 200"
  unfolding run_def
  by (induction evs arbitrary: p) (simp_all add: step_stack_sum)

lemma step_undo_bound:
  "length (undo_stack p) \<le> 200 \<Longrightarrow> e \<noteq> Redo \<Longrightarrow> length (undo_stack (step e p)) \<le> 200"
  by (cases e)
    (auto simp: applyNumber_def clearCell_def applyWithHistory_stacks mutator_frame undo_def Let_def)

lemma step_recording_undo:
  "recording e \<Longrightarrow>
   undo_stack (step e p) =
     (if 200 < length (undo_stack p @ [snapshotOf p])
      then tl (undo_stack p @ [snapshotOf p]) else undo_stack p @ [snapshotOf p])"
  by (cases e) (simp_all add: applyNumber_def clearCell_def applyWithHistory_stacks mutator_frame)

lemma run_recording_undo:
  "\<forall>e \<in> set evs. recording e \<Longrightarrow> length (undo_stack p) \<le> 200 \<Longrightarrow>
   undo_stack (run evs p) =
     drop (length (undo_stack p) + length evs - 200)
       (undo_stack p @ map snapshotOf (states_before evs p))"
proof (induction evs arbitrary: p)
  case Nil
  then show ?case by (simp add: run_def)
next
  case (Cons e es)
  let ?p' = "step e p"
  have rec: "recording e" and recs: "\<forall>e \<in> set es. recording e"
    using Cons.prems by simp_all
  have bound: "length (undo_stack ?p') \<le> 200"
    using rec Cons.prems(2) by (intro step_undo_bound) auto
  have run: "run (e # es) p = run es ?p'"
    by (simp add: run_def)
  have IH: "undo_stack (run es ?p') =
     drop (length (undo_stack ?p') + length es - 200)
       (undo_stack ?p' @ map snapshotOf (states_before es ?p'))"
    using Cons.IH [OF recs bound] .
  show ?case
  proof (cases "length (undo_stack p) < 200")
    case True
    then have "undo_stack ?p' = undo_stack p @ [snapshotOf p]"
      using rec by (simp add: step_recording_undo)
    then show ?thesis
      unfolding run IH by simp
  next
    case False
    with Cons.prems(2) have full: "length (undo_stack p) = 200" by simp
    then obtain x xs where u: "undo_stack p = x # xs"
      by (cases "undo_stack p") auto
    have "undo_stack ?p' = xs @ [snapshotOf p]"
      using rec full u by (simp add: step_recording_undo)
    then show ?thesis
      unfolding run IH using full u by (simp add: Suc_diff_le)
  qed
qed

lemma states_before_length: "length (states_before evs p) = length evs"
  by (induction evs arbitrary: p) simp_all

lemma states_before_nth: "i < length evs \<Longrightarrow> states_before evs p ! i = run (take i evs) p"
proof (induction evs arbitrary: p i)
  case Nil
  then show ?case by simp
next
  case (Cons e es)
  show ?case
  proof (cases i)
    case 0
    then show ?thesis by (simp add: run_def)
  next
    case (Suc j)
    with Cons.prems have "j < length es" by simp
    then have "states_before es (step e p) ! j = run (take j es) (step e p)"
      by (rule Cons.IH)
    with Suc show ?thesis by (simp add: run_def)
  qed
qed

lemma createSession_stacks:
  "createSession packs d idx = Inr s0 \<Longrightarrow> undo_stack s0 = [] \<and> redo_stack s0 = []"
  by (auto simp: createSession_def split: sum.splits prod.splits)

lemma run_snoc: "step e (run evs p) = run (evs @ [e]) p"
  by (simp add: run_def)

text \<open>
  C5. In every state reached from a freshly created session the undo stack holds at most
  200 snapshots, and it still does after any further operation, \<open>redo\<close> included: every
  operation preserves that the two stacks together hold at most 200 snapshots. A recording
  action appends the snapshot of the current state and drops the oldest one when the
  length exceeds 200; 250 recordings from an empty history leave exactly 200 snapshots,
  the oldest 50 gone: the \<open>i\<close>-th one left is the snapshot of the state before the
  \<open>50 + i\<close>-th recording.
\<close>

theorem undo_stack_bounded:
  "(createSession packs d idx = Inr s0 \<longrightarrow>
      (\<forall>evs. length (undo_stack (run evs s0)) \<le> 200 \<and>
         (\<forall>e. length (undo_stack (step e (run evs s0))) \<le> 200))) \<and>
   (length (undo_stack p) + length (redo_stack p) \<le> 200 \<longrightarrow>
      (\<forall>e. length (undo_stack (step e p)) + length (redo_stack (step e p)) \<le> 200) \<and>
      (\<forall>evs. length (undo_stack (run evs p)) \<le> 200)) \<and>
   (\<forall>e. recording e \<longrightarrow>
      undo_stack (step e p) =
        (if 200 < length (undo_stack p @ [snapshotOf p])
         then tl (undo_stack p @ [snapshotOf p]) else undo_stack p @ [snapshotOf p])) \<and>
   (\<forall>evs. undo_stack p = [] \<and> length evs = 250 \<and> (\<forall>e \<in> set evs. recording e) \<longrightarrow>
      length (undo_stack (run evs p)) = 200 \<and>
      undo_stack (run evs p) = drop 50 (map snapshotOf (states_before evs p)) \<and>
      (\<forall>i<200. undo_stack (run evs p) ! i = snapshotOf (run (take (50 + i) evs) p)))"
proof (intro conjI impI allI)
  assume c: "createSession packs d idx = Inr s0"
  then have "length (undo_stack s0) + length (redo_stack s0) \<le> 200"
    by (simp add: createSession_stacks)
  then have b: "length (undo_stack (run evs s0)) + length (redo_stack (run evs s0)) \<le> 200" for evs
    by (rule run_stack_sum)
  show "length (undo_stack (run evs s0)) \<le> 200" for evs
    using b [of evs] by simp
  show "length (undo_stack (step e (run evs s0))) \<le> 200" for evs e
    unfolding run_snoc using b [of "evs @ [e]"] by simp
next
  show "length (undo_stack (step e p)) + length (redo_stack (step e p)) \<le> 200"
    if "length (undo_stack p) + length (redo_stack p) \<le> 200" for e
    using that by (rule step_stack_sum)
  show "length (undo_stack (run evs p)) \<le> 200"
    if "length (undo_stack p) + length (redo_stack p) \<le> 200" for evs
    using run_stack_sum [OF that, of evs] by simp
  show "undo_stack (step e p) =
        (if 200 < length (undo_stack p @ [snapshotOf p])
         then tl (undo_stack p @ [snapshotOf p]) else undo_stack p @ [snapshotOf p])"
    if "recording e" for e
    using that by (rule step_recording_undo)
next
  fix evs
  assume h: "undo_stack p = [] \<and> length evs = 250 \<and> (\<forall>e \<in> set evs. recording e)"
  from h have eq: "undo_stack (run evs p) = drop 50 (map snapshotOf (states_before evs p))"
    using run_recording_undo [of evs p] by simp
  show "undo_stack (run evs p) = drop 50 (map snapshotOf (states_before evs p))"
    by (rule eq)
  show "length (undo_stack (run evs p)) = 200"
    using h by (simp add: eq states_before_length)
  show "undo_stack (run evs p) ! i = snapshotOf (run (take (50 + i) evs) p)" if "i < 200" for i
    using that h by (simp add: eq states_before_length states_before_nth)
qed

lemma array_set_other:
  "i < length xs \<Longrightarrow> i \<noteq> j \<Longrightarrow>
   i < length (array_set h xs j v) \<and> array_set h xs j v ! i = xs ! i"
  by (simp add: array_set_def nth_append)

lemma keeps_givens_array_set:
  assumes k: "keeps_givens gs es0 \<lparr>snap_entries = E, snap_notes = N\<rparr>"
    and j: "\<not> given_at gs j"
  shows "keeps_givens gs es0 \<lparr>snap_entries = array_set None E j v, snap_notes = array_set [] N j w\<rparr>"
    and "keeps_givens gs es0 \<lparr>snap_entries = E, snap_notes = array_set [] N j w\<rparr>"
proof -
  have *: "i < length E \<and> E ! i = es0 ! i \<and> i < length N \<and> N ! i = [] \<and> i \<noteq> j"
    if "given_at gs i" for i
    using k j that by (auto simp: keeps_givens_def)
  show "keeps_givens gs es0 \<lparr>snap_entries = array_set None E j v, snap_notes = array_set [] N j w\<rparr>"
    unfolding keeps_givens_def using * by (simp add: array_set_other)
  show "keeps_givens gs es0 \<lparr>snap_entries = E, snap_notes = array_set [] N j w\<rparr>"
    unfolding keeps_givens_def using * by (simp add: array_set_other)
qed

lemma mutator_keeps_givens:
  assumes "keeps_givens (givens d) es0 (snapshotOf d)"
  shows "keeps_givens (givens d) es0 (snapshotOf (applyNumber_mutator v d))"
    and "keeps_givens (givens d) es0 (snapshotOf (clearCell_mutator d))"
  using assms
  by (simp_all add: snapshotOf_def applyNumber_mutator_def clearCell_mutator_def
      keeps_givens_array_set split: option.splits)

lemma applyWithHistory_inv:
  assumes inv: "session_inv gs es0 p"
    and m: "givens (m p) = givens p" "undo_stack (m p) = undo_stack p"
      "keeps_givens (givens p) es0 (snapshotOf (m p))"
  shows "session_inv gs es0 (applyWithHistory m p)"
proof -
  let ?u = "undo_stack p @ [snapshotOf p]"
  have "set (tl ?u) \<subseteq> set ?u"
    by (metis list.sel(2) list.set_sel(2) subsetI)
  then have "set (undo_stack (applyWithHistory m p)) \<subseteq> set (undo_stack p) \<union> {snapshotOf p}"
    by (auto simp: applyWithHistory_stacks m)
  with inv m show ?thesis
    by (auto simp: session_inv_def applyWithHistory_stacks)
qed

lemma step_inv: "session_inv gs es0 p \<Longrightarrow> session_inv gs es0 (step e p)"
proof (cases e)
  case (ApplyNumber v)
  assume inv: "session_inv gs es0 p"
  then have "keeps_givens (givens p) es0 (snapshotOf p)"
    by (simp add: session_inv_def)
  then show ?thesis
    using ApplyNumber inv
    by (simp add: applyNumber_def applyWithHistory_inv mutator_frame mutator_keeps_givens)
next
  case ClearCell
  assume inv: "session_inv gs es0 p"
  then have "keeps_givens (givens p) es0 (snapshotOf p)"
    by (simp add: session_inv_def)
  then show ?thesis
    using ClearCell inv
    by (simp add: clearCell_def applyWithHistory_inv mutator_frame mutator_keeps_givens)
next
  case Undo
  assume inv: "session_inv gs es0 p"
  show ?thesis
  proof (cases "undo_stack p = []")
    case True
    with inv Undo show ?thesis by (simp add: undo_def)
  next
    case False
    then have "last (undo_stack p) \<in> set (undo_stack p)" "set (butlast (undo_stack p)) \<subseteq> set (undo_stack p)"
      by (auto dest: in_set_butlastD)
    with inv False Undo show ?thesis
      by (auto simp: session_inv_def undo_def Let_def snapshotOf_def snapshot_eta)
  qed
next
  case Redo
  assume inv: "session_inv gs es0 p"
  show ?thesis
  proof (cases "redo_stack p = []")
    case True
    with inv Redo show ?thesis by (simp add: redo_def)
  next
    case False
    then have "last (redo_stack p) \<in> set (redo_stack p)" "set (butlast (redo_stack p)) \<subseteq> set (redo_stack p)"
      by (auto dest: in_set_butlastD)
    with inv False Redo show ?thesis
      by (auto simp: session_inv_def redo_def Let_def snapshotOf_def snapshot_eta)
  qed
qed (auto simp: session_inv_def snapshotOf_def)

lemma run_inv: "session_inv gs es0 p \<Longrightarrow> session_inv gs es0 (run evs p)"
  unfolding run_def by (induction evs arbitrary: p) (simp_all add: step_inv)

lemma createSession_inv:
  assumes "createSession packs d idx = Inr s0"
  shows "session_inv (givens s0) (entries s0) s0"
proof -
  from assms obtain pz k es where es: "parseGrid (puzzle_grid pz) = Inr es"
    and s0: "s0 = \<lparr>difficulty = d, puzzleIndex = k, puzzle = pz,
                    givens = map (\<lambda>v. v \<noteq> None) es, entries = es,
                    cellNotes = replicate 81 [], selected = None, notesMode = False,
                    undo_stack = [], redo_stack = [], elapsedSeconds = 0\<rparr>"
    by (auto simp: createSession_def split: sum.splits prod.splits)
  from es have "length es = 81"
    by (auto dest: parseGrid_Inr)
  then show ?thesis
    by (simp add: s0 session_inv_def keeps_givens_def snapshotOf_def given_at_def)
qed

text \<open>
  C8. In every state that a run of session operations reaches from a freshly created
  session, and after any further operation, each given cell holds the entry it had at
  creation and has no notes; the givens themselves never change.
\<close>

theorem givens_never_modified:
  "createSession packs d idx = Inr s0 \<Longrightarrow> given_at (givens s0) i \<Longrightarrow>
   givens (run evs s0) = givens s0 \<and>
   i < length (entries (run evs s0)) \<and> entries (run evs s0) ! i = entries s0 ! i \<and>
   i < length (cellNotes (run evs s0)) \<and> cellNotes (run evs s0) ! i = [] \<and>
   (\<forall>e. entries (step e (run evs s0)) ! i = entries s0 ! i \<and> cellNotes (step e (run evs s0)) ! i = [])"
proof -
  assume c: "createSession packs d idx = Inr s0" and g: "given_at (givens s0) i"
  have inv: "session_inv (givens s0) (entries s0) (run evs s0)" for evs
    using createSession_inv [OF c] by (rule run_inv)
  have st: "step e (run evs s0) = run (evs @ [e]) s0" for e
    by (simp add: run_def)
  from inv [of evs] g have
    "givens (run evs s0) = givens s0 \<and>
     i < length (entries (run evs s0)) \<and> entries (run evs s0) ! i = entries s0 ! i \<and>
     i < length (cellNotes (run evs s0)) \<and> cellNotes (run evs s0) ! i = []"
    by (simp add: session_inv_def keeps_givens_def snapshotOf_def)
  moreover have "entries (step e (run evs s0)) ! i = entries s0 ! i \<and> cellNotes (step e (run evs s0)) ! i = []" for e
    unfolding st using inv [of "evs @ [e]"] g
    by (simp add: session_inv_def keeps_givens_def snapshotOf_def)
  ultimately show ?thesis
    by blast
qed

lemma demo_created: "createSession demo_packs Easy 0 = Inr demo_session"
proof -
  let ?s = "puzzle_grid demo_puzzle"
  have "length ?s = 81" "set ?s \<subseteq> grid_alphabet"
    by (simp_all add: demo_puzzle_def grid_alphabet_def)
  then have "parseGrid ?s = Inr (map cell_of_char ?s)"
    by (rule parseGrid_ok)
  then show ?thesis
    by (simp add: createSession_def puzzleAt_def demo_packs_def js_rem_def demo_session_def)
qed

lemma demo_fields:
  "selected demo_session = None" "undo_stack demo_session = []" "redo_stack demo_session = []"
  "given_at (givens demo_session) 0" "\<not> given_at (givens demo_session) 2"
  "entries demo_session ! 0 = Some 5"
  by (simp_all add: demo_session_def demo_puzzle_def given_at_def cell_of_char_def)

theorem history_linearity_witness:
  "recording (ApplyNumber 4) \<and> recording ClearCell \<and>
   undo_stack demo_session = [] \<and> undo demo_session = demo_session \<and>
   redo (undo (step ClearCell (step (ApplyNumber 4) (step (Select 2) demo_session)))) =
     step ClearCell (step (ApplyNumber 4) (step (Select 2) demo_session)) \<and>
   snapshotOf (undo (step ClearCell (step (ApplyNumber 4) (step (Select 2) demo_session)))) =
     snapshotOf (step (ApplyNumber 4) (step (Select 2) demo_session))"
proof -
  have r: "recording (ApplyNumber 4) \<and> recording ClearCell \<and> recording ClearCell"
    by simp
  have e: "undo_stack demo_session = []"
    by (rule demo_fields)
  from history_linearity [of demo_session] e have "undo demo_session = demo_session"
    by blast
  moreover from history_linearity [of "step (Select 2) demo_session"] r
  have "redo (undo (step ClearCell (step (ApplyNumber 4) (step (Select 2) demo_session)))) =
     step ClearCell (step (ApplyNumber 4) (step (Select 2) demo_session)) \<and>
   snapshotOf (undo (step ClearCell (step (ApplyNumber 4) (step (Select 2) demo_session)))) =
     snapshotOf (step (ApplyNumber 4) (step (Select 2) demo_session))"
    by blast
  ultimately show ?thesis
    using r e by blast
qed

lemma applyNumber_entry:
  assumes "selected q = Some i" "\<not> given_at (givens q) i" "\<not> notesMode q" "i < length (entries q)"
  shows "entries (applyNumber v q) = (entries q)[i := Some v]"
    and "selected (applyNumber v q) = Some i" "givens (applyNumber v q) = givens q"
    and "notesMode (applyNumber v q) = notesMode q"
    and "length (entries (applyNumber v q)) = length (entries q)"
  using assms
  by (simp_all add: applyNumber_def applyWithHistory_def applyNumber_mutator_def Let_def array_set_def)

lemma applyNumber_note:
  assumes "selected q = Some i" "\<not> given_at (givens q) i" "notesMode q" "i < length (cellNotes q)"
  shows "cellNotes (applyNumber v q) = (cellNotes q)[i := toggleNote v (cellNotes q ! i)]"
    and "entries (applyNumber v q) = entries q" "givens (applyNumber v q) = givens q"
  using assms
  by (simp_all add: applyNumber_def applyWithHistory_def applyNumber_mutator_def Let_def
      array_set_def notes_at_def)

lemma demo_entries: "length (entries demo_session) = 81" "entries demo_session ! 2 = None"
  "\<not> notesMode demo_session"
  by (simp_all add: demo_session_def demo_puzzle_def cell_of_char_def)

lemma demo_notes: "length (cellNotes demo_session) = 81" "cellNotes demo_session ! 2 = []"
  by (simp_all add: demo_session_def)

theorem noop_action_recorded_witness:
  "selected demo_session = None \<and>
   undo_stack (applyNumber 7 demo_session) =
     [\<lparr>snap_entries = entries demo_session, snap_notes = cellNotes demo_session\<rparr>] \<and>
   entries (applyNumber 7 demo_session) = entries demo_session \<and>
   redo_stack (clearCell demo_session) = [] \<and>
   selected (step (Select 0) (undo (applyNumber 7 demo_session))) = Some 0 \<and>
   given_at (givens (step (Select 0) (undo (applyNumber 7 demo_session)))) 0 \<and>
   redo_stack (step (Select 0) (undo (applyNumber 7 demo_session))) \<noteq> [] \<and>
   redo_stack (clearCell (step (Select 0) (undo (applyNumber 7 demo_session)))) = [] \<and>
   entries (clearCell (step (Select 0) (undo (applyNumber 7 demo_session)))) =
     entries (step (Select 0) (undo (applyNumber 7 demo_session))) \<and>
   entries demo_session ! 2 = None \<and>
   entries (step (Select 0) (applyNumber 4 (step (Select 2) demo_session))) ! 2 = Some 4 \<and>
   snap_entries (last (undo_stack
     (clearCell (step (Select 0) (applyNumber 4 (step (Select 2) demo_session)))))) ! 2 = Some 4 \<and>
   entries (clearCell (step (Select 0) (applyNumber 4 (step (Select 2) demo_session)))) ! 2 = Some 4 \<and>
   cellNotes demo_session ! 2 = [] \<and>
   cellNotes (step (Select 0)
     (applyNumber 3 (step ToggleNotesMode (step (Select 2) demo_session)))) ! 2 = [3] \<and>
   snap_notes (last (undo_stack (clearCell (step (Select 0)
     (applyNumber 3 (step ToggleNotesMode (step (Select 2) demo_session))))))) ! 2 = [3] \<and>
   cellNotes (clearCell (step (Select 0)
     (applyNumber 3 (step ToggleNotesMode (step (Select 2) demo_session))))) ! 2 = [3]"
proof -
  have n: "selected demo_session = None"
    by (rule demo_fields)
  then have h: "selected demo_session = None \<or>
      (\<exists>i. selected demo_session = Some i \<and> given_at (givens demo_session) i)"
    by simp
  note a = noop_action_recorded [OF h, of 7]
  have a1: "undo_stack (applyNumber 7 demo_session) =
      [\<lparr>snap_entries = entries demo_session, snap_notes = cellNotes demo_session\<rparr>]"
    "entries (applyNumber 7 demo_session) = entries demo_session"
    "redo_stack (clearCell demo_session) = []"
    "givens (applyNumber 7 demo_session) = givens demo_session"
    using a by (simp_all add: demo_fields)
  let ?q = "step (Select 0) (undo (applyNumber 7 demo_session))"
  have q: "selected ?q = Some 0" "given_at (givens ?q) 0" "redo_stack ?q \<noteq> []"
    using a1 by (simp_all add: undo_def Let_def demo_fields)
  then have h2: "selected ?q = None \<or> (\<exists>i. selected ?q = Some i \<and> given_at (givens ?q) i)"
    by simp
  note b = noop_action_recorded [OF h2, of 7]
  have b1: "redo_stack (clearCell ?q) = []" "entries (clearCell ?q) = entries ?q"
    using b by simp_all
  let ?s = "step (Select 2) demo_session"
  have s: "selected ?s = Some 2" "\<not> given_at (givens ?s) 2" "\<not> notesMode ?s" "2 < length (entries ?s)"
    using demo_fields demo_entries by simp_all
  note e = applyNumber_entry [OF s, of 4]
  let ?r = "step (Select 0) (applyNumber 4 ?s)"
  have r: "selected ?r = Some 0" "given_at (givens ?r) 0" "entries ?r ! 2 = Some 4"
    using e s(4) demo_fields by simp_all
  then have h3: "selected ?r = None \<or> (\<exists>i. selected ?r = Some i \<and> given_at (givens ?r) i)"
    by simp
  note c = noop_action_recorded [OF h3, of 7]
  note c4 = c [THEN conjunct2, THEN conjunct2, THEN conjunct2, THEN conjunct1]
  note c7 = c [THEN conjunct2, THEN conjunct2, THEN conjunct2, THEN conjunct2, THEN conjunct2,
      THEN conjunct2, THEN conjunct1]
  have "snap_entries (last (undo_stack (clearCell ?r))) = entries ?r"
    by (simp only: c4 Snapshot.select_convs)
  then have c1: "snap_entries (last (undo_stack (clearCell ?r))) ! 2 = Some 4"
    by (simp only: r(3))
  then have c2: "entries (clearCell ?r) ! 2 = Some 4"
    by (simp only: c7)
  let ?t = "step ToggleNotesMode (step (Select 2) demo_session)"
  have t: "selected ?t = Some 2" "\<not> given_at (givens ?t) 2" "notesMode ?t" "2 < length (cellNotes ?t)"
    "cellNotes ?t ! 2 = []"
    using demo_fields demo_entries demo_notes by simp_all
  note g = applyNumber_note [OF t(1-4), of 3]
  let ?n = "step (Select 0) (applyNumber 3 ?t)"
  have m: "selected ?n = Some 0" "given_at (givens ?n) 0" "cellNotes ?n ! 2 = [3]"
    using g t(4,5) demo_fields by (simp_all add: toggleNote_def)
  then have h4: "selected ?n = None \<or> (\<exists>i. selected ?n = Some i \<and> given_at (givens ?n) i)"
    by simp
  note d = noop_action_recorded [OF h4, of 7]
  note d4 = d [THEN conjunct2, THEN conjunct2, THEN conjunct2, THEN conjunct1]
  note d8 = d [THEN conjunct2, THEN conjunct2, THEN conjunct2, THEN conjunct2, THEN conjunct2,
      THEN conjunct2, THEN conjunct2]
  have "snap_notes (last (undo_stack (clearCell ?n))) = cellNotes ?n"
    by (simp only: d4 Snapshot.select_convs)
  then have d1: "snap_notes (last (undo_stack (clearCell ?n))) ! 2 = [3]"
    by (simp only: m(3))
  then have d2: "cellNotes (clearCell ?n) ! 2 = [3]"
    by (simp only: d8)
  show ?thesis
    using n a1(1,2,3) q b1 demo_entries(2) r(3) c1 c2 demo_notes(2) m(3) d1 d2 by blast
qed

lemma run_numbers:
  assumes "selected q = Some i" "\<not> given_at (givens q) i" "\<not> notesMode q" "i < length (entries q)"
  shows "entries (run (map ApplyNumber (vs @ [v])) q) ! i = Some v"
  using assms
proof (induction vs arbitrary: q)
  case Nil
  then show ?case
    by (simp add: run_def applyNumber_entry)
next
  case (Cons w vs)
  note e = applyNumber_entry [OF Cons.prems, of w]
  have "entries (run (map ApplyNumber (vs @ [v])) (applyNumber w q)) ! i = Some v"
    using e Cons.prems by (intro Cons.IH) simp_all
  then show ?case
    by (simp add: run_def)
qed

lemma digit_prefix:
  assumes "m < 250"
  shows "take (Suc m) digit_events =
     map ApplyNumber (map (\<lambda>k. k mod 9 + 1) [0..<m] @ [m mod 9 + 1])"
proof -
  have "take (Suc m) [0..<250] = [0..<Suc m]"
    using assms by (simp only: take_upt add_0 Suc_leI)
  then show ?thesis
    by (simp add: digit_events_def take_map)
qed

lemma digit_events_props: "length digit_events = 250" "\<forall>e \<in> set digit_events. recording e"
  by (auto simp: digit_events_def)

theorem undo_stack_bounded_witness:
  "createSession demo_packs Easy 0 = Inr demo_session \<and>
   length (undo_stack (run (Select 2 # digit_events @ [Undo, Redo]) demo_session)) \<le> 200 \<and>
   length (undo_stack (step Redo (run (Select 2 # digit_events @ [Undo]) demo_session))) \<le> 200 \<and>
   length (undo_stack demo_session) + length (redo_stack demo_session) \<le> 200 \<and>
   length (undo_stack (step Redo demo_session)) + length (redo_stack (step Redo demo_session)) \<le> 200 \<and>
   length (undo_stack (run [ClearCell, Undo, Redo] demo_session)) \<le> 200 \<and>
   recording ClearCell \<and>
   undo_stack (step ClearCell demo_session) = [snapshotOf demo_session] \<and>
   undo_stack (step (Select 2) demo_session) = [] \<and> length digit_events = 250 \<and>
   length (undo_stack (run digit_events (step (Select 2) demo_session))) = 200 \<and>
   snap_entries (snapshotOf (step (Select 2) demo_session)) ! 2 = None \<and>
   snap_entries (undo_stack (run digit_events (step (Select 2) demo_session)) ! 0) ! 2 = Some 5 \<and>
   snap_entries (undo_stack (run digit_events (step (Select 2) demo_session)) ! 1) ! 2 = Some 6 \<and>
   snap_entries (undo_stack (run digit_events (step (Select 2) demo_session)) ! 199) ! 2 = Some 6"
proof -
  let ?p = "step (Select 2) demo_session"
  note t1 = undo_stack_bounded [of demo_packs Easy 0 demo_session demo_session, THEN conjunct1,
      rule_format, OF demo_created]
  have w1: "length (undo_stack (run (Select 2 # digit_events @ [Undo, Redo]) demo_session)) \<le> 200"
    by (rule t1 [THEN conjunct1])
  have w2: "length (undo_stack (step Redo (run (Select 2 # digit_events @ [Undo]) demo_session))) \<le> 200"
    by (rule t1 [THEN conjunct2, rule_format])
  have h1: "length (undo_stack demo_session) + length (redo_stack demo_session) \<le> 200"
    by (simp add: demo_fields)
  note t2 = undo_stack_bounded [of demo_packs Easy 0 demo_session demo_session, THEN conjunct2,
      THEN conjunct1, rule_format, OF h1]
  have v1: "length (undo_stack (step Redo demo_session)) + length (redo_stack (step Redo demo_session)) \<le> 200"
    by (rule t2 [THEN conjunct1, rule_format])
  have v2: "length (undo_stack (run [ClearCell, Undo, Redo] demo_session)) \<le> 200"
    by (rule t2 [THEN conjunct2, rule_format])
  have h2: "recording ClearCell"
    by simp
  note t3 = undo_stack_bounded [of demo_packs Easy 0 demo_session demo_session, THEN conjunct2,
      THEN conjunct2, THEN conjunct1, rule_format, OF h2]
  have w3: "undo_stack (step ClearCell demo_session) = [snapshotOf demo_session]"
    using t3 by (simp add: demo_fields)
  have p: "selected ?p = Some 2" "\<not> given_at (givens ?p) 2" "\<not> notesMode ?p"
    "2 < length (entries ?p)" "undo_stack ?p = []" "entries ?p ! 2 = None"
    using demo_fields demo_entries by simp_all
  have h4: "undo_stack ?p = [] \<and> length digit_events = 250 \<and> (\<forall>e \<in> set digit_events. recording e)"
    using p(5) digit_events_props by simp
  note t4 = undo_stack_bounded [of demo_packs Easy 0 demo_session ?p, THEN conjunct2,
      THEN conjunct2, THEN conjunct2, rule_format, OF h4]
  have w4: "length (undo_stack (run digit_events ?p)) = 200"
    by (rule t4 [THEN conjunct1])
  have nth: "undo_stack (run digit_events ?p) ! i = snapshotOf (run (take (50 + i) digit_events) ?p)"
    if "i < 200" for i
    using t4 [THEN conjunct2, THEN conjunct2] that by blast
  have entry: "snap_entries (snapshotOf (run (take (Suc m) digit_events) ?p)) ! 2 = Some (m mod 9 + 1)"
    if "m < 250" for m
  proof -
    have "entries (run (take (Suc m) digit_events) ?p) ! 2 = Some (m mod 9 + 1)"
      unfolding digit_prefix [OF that] by (rule run_numbers [OF p(1-4)])
    then show ?thesis
      by (simp only: snapshotOf_def Snapshot.select_convs)
  qed
  have "snap_entries (undo_stack (run digit_events ?p) ! 0) ! 2 = Some 5"
    using nth [of 0] entry [of 49] by simp
  moreover have "snap_entries (undo_stack (run digit_events ?p) ! 1) ! 2 = Some 6"
    using nth [of 1] entry [of 50] by simp
  moreover have "snap_entries (undo_stack (run digit_events ?p) ! 199) ! 2 = Some 6"
    using nth [of 199] entry [of 248] by simp
  moreover have "snap_entries (snapshotOf ?p) ! 2 = None"
    using p(6) by (simp add: snapshotOf_def)
  ultimately show ?thesis
    using demo_created w1 w2 h1 v1 v2 h2 w3 p(5) digit_events_props(1) w4 by blast
qed

theorem givens_never_modified_witness:
  "createSession demo_packs Easy 0 = Inr demo_session \<and> given_at (givens demo_session) 0 \<and>
   entries (run [Select 0, ApplyNumber 9, ClearCell, Undo, Redo] demo_session) ! 0 = Some 5 \<and>
   cellNotes (run [Select 0, ToggleNotesMode, ApplyNumber 9, Undo] demo_session) ! 0 = []"
  using givens_never_modified [OF demo_created demo_fields(4), of "[Select 0, ApplyNumber 9, ClearCell, Undo, Redo]"]
    givens_never_modified [OF demo_created demo_fields(4), of "[Select 0, ToggleNotesMode, ApplyNumber 9, Undo]"]
    demo_created demo_fields(4,6)
  by simp

section \<open>Conflict detection: proofs\<close>

lemma map_of_map_set: "map_of (map_set k v ps) = (map_of ps)(k \<mapsto> v)"
  by (induction ps) (auto simp: fun_eq_iff)

lemma keys_map_set: "set (map fst (map_set k v ps)) = insert k (set (map fst ps))"
  by (induction ps) auto

lemma distinct_map_set: "distinct (map fst ps) \<Longrightarrow> distinct (map fst (map_set k v ps))"
  by (induction ps) (auto simp: keys_map_set [simplified])

lemma groupByValue_distinct:
  "distinct (map fst bv) \<Longrightarrow> distinct (map fst (groupByValue vals idxs bv))"
  by (induction idxs arbitrary: bv) (auto simp: Let_def distinct_map_set split: option.splits)

lemma groupByValue_lookup:
  "map_of (groupByValue vals idxs bv) v =
     (if filter (\<lambda>i. cell vals i = Some v) idxs = [] then map_of bv v
      else Some ((case map_of bv v of None \<Rightarrow> [] | Some l \<Rightarrow> l) @ filter (\<lambda>i. cell vals i = Some v) idxs))"
proof (induction idxs arbitrary: bv)
  case Nil
  show ?case by simp
next
  case (Cons i idxs)
  show ?case
  proof (cases "cell vals i")
    case None
    then show ?thesis by (simp add: Cons.IH)
  next
    case (Some w)
    then show ?thesis
      by (simp add: Cons.IH Let_def map_get_def map_of_map_set)
  qed
qed

lemma fold_set_add: "set (fold set_add xs c) = set xs \<union> set c"
  by (induction xs arbitrary: c) (auto simp: set_add_def)

lemma distinct_fold_set_add: "distinct c \<Longrightarrow> distinct (fold set_add xs c)"
  by (induction xs arbitrary: c) (auto simp: set_add_def)

lemma set_markDupes:
  "set (markDupes d c) = set c \<union> (if 1 < length d then set d else {})"
  by (auto simp: markDupes_def fold_set_add)

lemma fold_markDupes:
  "set (fold markDupes ds c) = set c \<union> \<Union> {set d |d. d \<in> set ds \<and> 1 < length d}"
  by (induction ds arbitrary: c) (auto simp: set_markDupes)

lemma distinct_fold_markDupes: "distinct c \<Longrightarrow> distinct (fold markDupes ds c)"
  by (induction ds arbitrary: c) (auto simp: markDupes_def distinct_fold_set_add)

lemma set_markGroup: "set (markGroup vals g c) = set c \<union> dupes_in vals g"
proof -
  let ?bv = "groupByValue vals g []"
  have d: "distinct (map fst ?bv)"
    by (rule groupByValue_distinct) simp
  have look: "map_of ?bv v =
      (if filter (\<lambda>i. cell vals i = Some v) g = [] then None
       else Some (filter (\<lambda>i. cell vals i = Some v) g))" for v
    by (simp add: groupByValue_lookup)
  have vals: "set (map snd ?bv) = {filter (\<lambda>i. cell vals i = Some v) g |v. filter (\<lambda>i. cell vals i = Some v) g \<noteq> []}"
    (is "?L = ?R")
  proof (intro set_eqI iffI)
    fix l assume "l \<in> ?L"
    then obtain v where "(v, l) \<in> set ?bv" by auto
    with d have "map_of ?bv v = Some l" by simp
    then show "l \<in> ?R"
      unfolding look by (auto split: if_splits)
  next
    fix l assume "l \<in> ?R"
    then obtain v where "l = filter (\<lambda>i. cell vals i = Some v) g" "l \<noteq> []" by auto
    then have "map_of ?bv v = Some l"
      unfolding look by simp
    then have "(v, l) \<in> set ?bv"
      by (rule map_of_SomeD)
    then show "l \<in> ?L"
      by force
  qed
  have "\<Union> {set d |d. d \<in> set (map snd ?bv) \<and> 1 < length d} = dupes_in vals g"
    (is "?U = _")
  proof (intro set_eqI iffI)
    fix i assume "i \<in> ?U"
    then obtain d where d: "d \<in> set (map snd ?bv)" "1 < length d" "i \<in> set d"
      by blast
    from d(1) obtain v where v: "d = filter (\<lambda>k. cell vals k = Some v) g"
      unfolding vals by blast
    with d(3) have "i \<in> set g" "cell vals i = Some v"
      by simp_all
    with d(2) v show "i \<in> dupes_in vals g"
      unfolding dupes_in_def by blast
  next
    fix i assume "i \<in> dupes_in vals g"
    then obtain v where i: "i \<in> set g" "cell vals i = Some v"
      and len: "1 < length (filter (\<lambda>k. cell vals k = Some v) g)"
      unfolding dupes_in_def by blast
    let ?d = "filter (\<lambda>k. cell vals k = Some v) g"
    from i have mem: "i \<in> set ?d" by simp
    then have "?d \<noteq> []" by (metis empty_iff empty_set)
    then have "?d \<in> set (map snd ?bv)"
      unfolding vals by blast
    with len mem show "i \<in> ?U"
      by blast
  qed
  then show ?thesis
    unfolding markGroup_def fold_markDupes by simp
qed

lemma distinct_markGroup: "distinct c \<Longrightarrow> distinct (markGroup vals g c)"
  by (simp add: markGroup_def distinct_fold_markDupes)

lemma fold_markGroup:
  "set (fold (\<lambda>x. markGroup vals (f x)) xs c) = set c \<union> (\<Union>x \<in> set xs. dupes_in vals (f x))"
  by (induction xs arbitrary: c) (auto simp: set_markGroup)

lemma distinct_fold_markGroup:
  "distinct c \<Longrightarrow> distinct (fold (\<lambda>x. markGroup vals (f x)) xs c)"
  by (induction xs arbitrary: c) (auto simp: distinct_markGroup)

lemma fold_fold_markGroup:
  "set (fold (\<lambda>x c. fold (\<lambda>y. markGroup vals (f x y)) ys c) xs c) =
     set c \<union> (\<Union>x \<in> set xs. \<Union>y \<in> set ys. dupes_in vals (f x y))"
  by (induction xs arbitrary: c) (auto simp: fold_markGroup)

lemma distinct_fold_fold_markGroup:
  "distinct c \<Longrightarrow> distinct (fold (\<lambda>x c. fold (\<lambda>y. markGroup vals (f x y)) ys c) xs c)"
  by (induction xs arbitrary: c) (auto simp: distinct_fold_markGroup)

lemma set_all_groups:
  "set (fold (\<lambda>x c. fold (\<lambda>y. markGroup vals (h x y)) ys c) xs
          (fold (\<lambda>x. markGroup vals (g x)) cs (fold (\<lambda>x. markGroup vals (f x)) rs []))) =
   (\<Union>G \<in> set (map f rs @ map g cs @ concat (map (\<lambda>x. map (\<lambda>y. h x y) ys) xs)). dupes_in vals G)"
  unfolding fold_fold_markGroup fold_markGroup by auto

lemma set_computeConflicts:
  "set (computeConflicts vals) = (\<Union>g \<in> set constraint_groups. dupes_in vals g)"
  unfolding computeConflicts_def Let_def constraint_groups_def by (rule set_all_groups)

lemma distinct_computeConflicts: "distinct (computeConflicts vals)"
  unfolding computeConflicts_def Let_def
  by (intro distinct_fold_fold_markGroup distinct_fold_markGroup) simp

lemma mem_rowIndices: "i \<in> set (rowIndices r) \<longleftrightarrow> i div 9 = r"
proof
  assume "i \<in> set (rowIndices r)"
  then obtain c where "c \<in> {0..<9}" "i = r * 9 + c"
    unfolding rowIndices_def set_map set_upt by blast
  then show "i div 9 = r" by simp
next
  assume "i div 9 = r"
  then have "i = r * 9 + i mod 9" "i mod 9 \<in> {0..<9}"
    by auto
  then show "i \<in> set (rowIndices r)"
    unfolding rowIndices_def set_map set_upt by (rule image_eqI)
qed

lemma mem_colIndices: "c < 9 \<Longrightarrow> i \<in> set (colIndices c) \<longleftrightarrow> i < 81 \<and> i mod 9 = c"
proof
  assume c: "c < 9" and "i \<in> set (colIndices c)"
  then obtain r where "r \<in> {0..<9}" "i = r * 9 + c"
    unfolding colIndices_def set_map set_upt by blast
  with c show "i < 81 \<and> i mod 9 = c" by simp
next
  assume "c < 9" and "i < 81 \<and> i mod 9 = c"
  then have "i = i div 9 * 9 + c" "i div 9 \<in> {0..<9}"
    by auto
  then show "i \<in> set (colIndices c)"
    unfolding colIndices_def set_map set_upt by (rule image_eqI)
qed

lemma boxIndices_flat:
  "boxIndices br bc = map (\<lambda>k. (br * 3 + k div 3) * 9 + (bc * 3 + k mod 3)) [0..<9]"
proof -
  have 3: "[0..<3] = [0, 1, 2 :: nat]" and 9: "[0..<9] = [0, 1, 2, 3, 4, 5, 6, 7, 8 :: nat]"
    by (simp_all add: upt_rec)
  show ?thesis
    unfolding boxIndices_def 3 9 by simp
qed

lemma mem_boxIndices:
  assumes "br < 3" "bc < 3"
  shows "i \<in> set (boxIndices br bc) \<longleftrightarrow> i < 81 \<and> i div 9 div 3 = br \<and> i mod 9 div 3 = bc"
proof
  assume "i \<in> set (boxIndices br bc)"
  then obtain k where k: "k \<in> {0..<9}" "i = (br * 3 + k div 3) * 9 + (bc * 3 + k mod 3)"
    unfolding boxIndices_flat set_map set_upt by blast
  define r c where "r = k div 3" and "c = k mod 3"
  have rc: "r < 3" "c < 3" "i = 9 * (br * 3 + r) + (bc * 3 + c)"
    using k by (auto simp: r_def c_def)
  from rc assms have small: "bc * 3 + c < 9" by simp
  have d: "i div 9 = br * 3 + r"
    unfolding rc(3) using small by simp
  have m: "i mod 9 = bc * 3 + c"
    unfolding rc(3) using small by (simp only: mod_mult_self4 mod_less)
  have "i < 81" using rc assms by simp
  moreover have "i div 9 div 3 = br" unfolding d using rc by simp
  moreover have "i mod 9 div 3 = bc" unfolding m using rc by simp
  ultimately show "i < 81 \<and> i div 9 div 3 = br \<and> i mod 9 div 3 = bc"
    by simp
next
  assume h: "i < 81 \<and> i div 9 div 3 = br \<and> i mod 9 div 3 = bc"
  define r c where "r = i div 9 mod 3" and "c = i mod 9 mod 3"
  define k where "k = r * 3 + c"
  have rc: "r < 3" "c < 3" by (simp_all add: r_def c_def)
  have "i div 9 = br * 3 + r" "i mod 9 = bc * 3 + c"
    using h by (auto simp: r_def c_def)
  then have i: "i = (br * 3 + r) * 9 + (bc * 3 + c)"
    by (metis div_mult_mod_eq)
  have "k div 3 = r" "k mod 3 = c" "k \<in> {0..<9}"
    using rc by (simp_all add: k_def)
  with i have "i = (br * 3 + k div 3) * 9 + (bc * 3 + k mod 3)" "k \<in> {0..<9}"
    by simp_all
  then show "i \<in> set (boxIndices br bc)"
    unfolding boxIndices_flat set_map set_upt by (rule image_eqI)
qed

lemma distinct_groups: "distinct (rowIndices r)" "distinct (colIndices c)" "distinct (boxIndices br bc)"
proof -
  show "distinct (rowIndices r)" "distinct (colIndices c)"
    by (simp_all add: rowIndices_def colIndices_def distinct_map inj_on_def)
  have 3: "[0..<3] = [0, 1, 2 :: nat]"
    by (simp add: upt_rec)
  have "boxIndices br bc = map (\<lambda>d. br * 27 + bc * 3 + d) [0, 1, 2, 9, 10, 11, 18, 19, 20]"
    unfolding boxIndices_def 3 by simp
  then show "distinct (boxIndices br bc)"
    by (simp add: distinct_map inj_on_def)
qed

lemma in_groups_general:
  "g \<in> set (map f rs @ map f' cs @ concat (map (\<lambda>x. map (\<lambda>y. h x y) ys) xs)) \<longleftrightarrow>
     (\<exists>r \<in> set rs. g = f r) \<or> (\<exists>c \<in> set cs. g = f' c) \<or> (\<exists>x \<in> set xs. \<exists>y \<in> set ys. g = h x y)"
  by auto

lemma in_constraint_groups:
  "g \<in> set constraint_groups \<longleftrightarrow>
     (\<exists>r<9. g = rowIndices r) \<or> (\<exists>c<9. g = colIndices c) \<or>
     (\<exists>br<3. \<exists>bc<3. g = boxIndices br bc)"
  unfolding constraint_groups_def in_groups_general set_upt
  by (simp only: atLeast0LessThan lessThan_iff Bex_def)

lemma length_groups_general:
  "length (map f rs @ map f' cs @ concat (map (\<lambda>x. map (\<lambda>y. h x y) ys) xs)) =
     length rs + length cs + length xs * length ys"
  by (induction xs) simp_all

lemma length_constraint_groups: "length constraint_groups = 27"
  unfolding constraint_groups_def length_groups_general by simp

lemma group_cases:
  assumes "g \<in> set constraint_groups"
  obtains r where "r < 9" "g = rowIndices r"
  | c where "c < 9" "g = colIndices c"
  | br bc where "br < 3" "bc < 3" "g = boxIndices br bc"
  using assms unfolding in_constraint_groups by blast

lemma group_props:
  assumes "g \<in> set constraint_groups"
  shows "distinct g" and "i \<in> set g \<Longrightarrow> i < 81"
proof -
  from assms show "distinct g"
    by (cases rule: group_cases) (simp_all add: distinct_groups)
  assume i: "i \<in> set g"
  from assms show "i < 81"
  proof (cases rule: group_cases)
    case (1 r)
    with i have "i div 9 = r" by (simp add: mem_rowIndices)
    with 1 show ?thesis by auto
  next
    case (2 c)
    with i show ?thesis by (simp add: mem_colIndices)
  next
    case (3 br bc)
    with i show ?thesis by (simp add: mem_boxIndices)
  qed
qed

lemma common_group:
  assumes "i < 81" "j < 81"
  shows "(\<exists>g \<in> set constraint_groups. i \<in> set g \<and> j \<in> set g) \<longleftrightarrow> same_group i j"
proof
  assume "\<exists>g \<in> set constraint_groups. i \<in> set g \<and> j \<in> set g"
  then obtain g where g: "g \<in> set constraint_groups" and ij: "i \<in> set g" "j \<in> set g"
    by blast
  from g show "same_group i j"
  proof (cases rule: group_cases)
    case (1 r)
    with ij show ?thesis by (simp add: mem_rowIndices same_group_def)
  next
    case (2 c)
    with ij show ?thesis by (simp add: mem_colIndices same_group_def)
  next
    case (3 br bc)
    with ij show ?thesis by (simp add: mem_boxIndices same_group_def)
  qed
next
  assume "same_group i j"
  then consider "i div 9 = j div 9" | "i mod 9 = j mod 9"
    | "i div 9 div 3 = j div 9 div 3 \<and> i mod 9 div 3 = j mod 9 div 3"
    unfolding same_group_def by blast
  then show "\<exists>g \<in> set constraint_groups. i \<in> set g \<and> j \<in> set g"
  proof cases
    case 1
    have "i div 9 < 9" using assms by simp
    then have "rowIndices (i div 9) \<in> set constraint_groups"
      unfolding in_constraint_groups by blast
    moreover have "i \<in> set (rowIndices (i div 9))" "j \<in> set (rowIndices (i div 9))"
      using 1 by (simp_all add: mem_rowIndices)
    ultimately show ?thesis by blast
  next
    case 2
    have "i mod 9 < 9" by simp
    then have "colIndices (i mod 9) \<in> set constraint_groups"
      unfolding in_constraint_groups by blast
    moreover have "i \<in> set (colIndices (i mod 9))" "j \<in> set (colIndices (i mod 9))"
      using assms 2 by (simp_all add: mem_colIndices)
    ultimately show ?thesis by blast
  next
    case 3
    have b: "i div 9 div 3 < 3" "i mod 9 div 3 < 3" using assms by simp_all
    then have "boxIndices (i div 9 div 3) (i mod 9 div 3) \<in> set constraint_groups"
      unfolding in_constraint_groups by blast
    moreover have "i \<in> set (boxIndices (i div 9 div 3) (i mod 9 div 3))"
      unfolding mem_boxIndices [OF b] using assms by simp
    moreover have "j \<in> set (boxIndices (i div 9 div 3) (i mod 9 div 3))"
      unfolding mem_boxIndices [OF b] using assms 3 by simp
    ultimately show ?thesis by blast
  qed
qed

lemma filter_more_than_one:
  assumes "distinct g" "i \<in> set g" "P i"
  shows "1 < length (filter P g) \<longleftrightarrow> (\<exists>j \<in> set g. j \<noteq> i \<and> P j)"
proof -
  let ?S = "{k \<in> set g. P k}"
  have len: "length (filter P g) = card ?S"
    using assms(1) by (metis distinct_card distinct_filter set_filter)
  have i: "i \<in> ?S" using assms by simp
  have fin: "finite ?S" by simp
  show ?thesis
  proof
    assume "1 < length (filter P g)"
    then have "1 < card ?S" by (simp add: len)
    then have "?S \<noteq> {i}" by auto
    with i show "\<exists>j \<in> set g. j \<noteq> i \<and> P j" by blast
  next
    assume "\<exists>j \<in> set g. j \<noteq> i \<and> P j"
    then obtain j where j: "j \<in> ?S" "j \<noteq> i" by blast
    with i have "{i, j} \<subseteq> ?S" by blast
    then have "card {i, j} \<le> card ?S"
      using fin by (simp add: card_mono)
    with j(2) show "1 < length (filter P g)"
      by (simp add: len)
  qed
qed

lemma dupes_in_distinct:
  assumes "distinct g"
  shows "i \<in> dupes_in vals g \<longleftrightarrow>
     i \<in> set g \<and> (\<exists>v. cell vals i = Some v \<and> (\<exists>j \<in> set g. j \<noteq> i \<and> cell vals j = Some v))"
proof
  assume "i \<in> dupes_in vals g"
  then obtain v where v: "i \<in> set g" "cell vals i = Some v"
    "1 < length (filter (\<lambda>k. cell vals k = Some v) g)"
    unfolding dupes_in_def by blast
  with filter_more_than_one [OF assms v(1), where P = "\<lambda>k. cell vals k = Some v"]
  show "i \<in> set g \<and> (\<exists>v. cell vals i = Some v \<and> (\<exists>j \<in> set g. j \<noteq> i \<and> cell vals j = Some v))"
    by blast
next
  assume "i \<in> set g \<and> (\<exists>v. cell vals i = Some v \<and> (\<exists>j \<in> set g. j \<noteq> i \<and> cell vals j = Some v))"
  then obtain v where v: "i \<in> set g" "cell vals i = Some v"
    "\<exists>j \<in> set g. j \<noteq> i \<and> cell vals j = Some v"
    by blast
  with filter_more_than_one [OF assms v(1), where P = "\<lambda>k. cell vals k = Some v"]
  have "1 < length (filter (\<lambda>k. cell vals k = Some v) g)"
    by blast
  with v show "i \<in> dupes_in vals g"
    unfolding dupes_in_def by blast
qed

lemma conflicts_iff:
  assumes len: "length vals = 81"
  shows "i \<in> set (computeConflicts vals) \<longleftrightarrow>
     i < 81 \<and> (\<exists>v. vals ! i = Some v \<and> (\<exists>j<81. j \<noteq> i \<and> same_group i j \<and> vals ! j = Some v))"
proof
  assume "i \<in> set (computeConflicts vals)"
  then obtain g where g: "g \<in> set constraint_groups" "i \<in> dupes_in vals g"
    unfolding set_computeConflicts by blast
  from g(2) obtain v j where *: "i \<in> set g" "cell vals i = Some v" "j \<in> set g" "j \<noteq> i"
    "cell vals j = Some v"
    unfolding dupes_in_distinct [OF group_props(1) [OF g(1)]] by blast
  have b: "i < 81" "j < 81"
    using g(1) * by (auto dest: group_props(2))
  moreover have "same_group i j"
    using common_group [OF b] g(1) * by blast
  ultimately show "i < 81 \<and> (\<exists>v. vals ! i = Some v \<and> (\<exists>j<81. j \<noteq> i \<and> same_group i j \<and> vals ! j = Some v))"
    using * len by (auto simp: cell_def)
next
  assume "i < 81 \<and> (\<exists>v. vals ! i = Some v \<and> (\<exists>j<81. j \<noteq> i \<and> same_group i j \<and> vals ! j = Some v))"
  then obtain v j where *: "i < 81" "vals ! i = Some v" "j < 81" "j \<noteq> i" "same_group i j"
    "vals ! j = Some v"
    by blast
  from common_group [OF *(1,3)] *(5) obtain g where g: "g \<in> set constraint_groups"
    "i \<in> set g" "j \<in> set g"
    by blast
  have "cell vals i = Some v" "cell vals j = Some v"
    using * len by (simp_all add: cell_def)
  with g * have "i \<in> dupes_in vals g"
    unfolding dupes_in_distinct [OF group_props(1) [OF g(1)]] by blast
  with g(1) show "i \<in> set (computeConflicts vals)"
    unfolding set_computeConflicts by blast
qed

text \<open>
  C1. On a grid of 81 cells, \<open>computeConflicts\<close> returns, each once, exactly the indices
  that hold a digit which another index of the same row, column or box holds too. In each
  of the 27 groups, every cell holding a value that two or more cells of the group hold
  is returned; an empty cell is never returned, and neither is a cell whose value differs
  from that of every other cell of its row, column and box.
\<close>

theorem computeConflicts_exact:
  "length vals = 81 \<Longrightarrow>
   set (computeConflicts vals) =
     {i. i < 81 \<and> (\<exists>v. vals ! i = Some v \<and>
        (\<exists>j<81. j \<noteq> i \<and> same_group i j \<and> vals ! j = Some v))} \<and>
   distinct (computeConflicts vals) \<and>
   length constraint_groups = 27 \<and>
   (\<forall>g \<in> set constraint_groups. \<forall>v.
      1 < length (filter (\<lambda>k. vals ! k = Some v) g) \<longrightarrow>
      {k \<in> set g. vals ! k = Some v} \<subseteq> set (computeConflicts vals)) \<and>
   (\<forall>i \<in> set (computeConflicts vals). i < 81 \<and> vals ! i \<noteq> None) \<and>
   (\<forall>i<81. (\<forall>j<81. j \<noteq> i \<and> same_group i j \<longrightarrow> vals ! j \<noteq> vals ! i) \<longrightarrow>
      i \<notin> set (computeConflicts vals))"
proof (intro conjI ballI allI impI)
  assume len: "length vals = 81"
  show "set (computeConflicts vals) =
     {i. i < 81 \<and> (\<exists>v. vals ! i = Some v \<and>
        (\<exists>j<81. j \<noteq> i \<and> same_group i j \<and> vals ! j = Some v))}"
    using conflicts_iff [OF len] by blast
  show "distinct (computeConflicts vals)"
    by (rule distinct_computeConflicts)
  show "length constraint_groups = 27"
    by (rule length_constraint_groups)
  show "i < 81" if "i \<in> set (computeConflicts vals)" for i
    using that conflicts_iff [OF len] by blast
  show "vals ! i \<noteq> None" if "i \<in> set (computeConflicts vals)" for i
    using that conflicts_iff [OF len, of i] by auto
  show "i \<notin> set (computeConflicts vals)"
    if "i < 81" "\<forall>j<81. j \<noteq> i \<and> same_group i j \<longrightarrow> vals ! j \<noteq> vals ! i" for i
    using that conflicts_iff [OF len, of i] by auto
next
  fix g v
  assume len: "length vals = 81" and g: "g \<in> set constraint_groups"
    and many: "1 < length (filter (\<lambda>k. vals ! k = Some v) g)"
  have c: "cell vals k = vals ! k" if "k \<in> set g" for k
    using group_props(2) [OF g that] len by (simp add: cell_def)
  then have f: "filter (\<lambda>k. cell vals k = Some v) g = filter (\<lambda>k. vals ! k = Some v) g"
    by (intro filter_cong) simp_all
  show "{k \<in> set g. vals ! k = Some v} \<subseteq> set (computeConflicts vals)"
  proof
    fix k assume "k \<in> {k \<in> set g. vals ! k = Some v}"
    then have "k \<in> set g" "cell vals k = Some v"
      by (simp_all add: c)
    moreover from many have "1 < length (filter (\<lambda>k. cell vals k = Some v) g)"
      by (simp only: f)
    ultimately have "k \<in> dupes_in vals g"
      unfolding dupes_in_def by blast
    with g show "k \<in> set (computeConflicts vals)"
      unfolding set_computeConflicts by blast
  qed
qed

theorem computeConflicts_exact_witness:
  "length pair_grid = 81 \<and> 0 \<in> set (computeConflicts pair_grid) \<and> 1 \<in> set (computeConflicts pair_grid) \<and>
   2 \<notin> set (computeConflicts pair_grid)"
proof -
  have len: "length pair_grid = 81"
    by (simp add: pair_grid_def)
  note t = computeConflicts_exact [OF len]
  note eq = t [THEN conjunct1]
  note filled = t [THEN conjunct2, THEN conjunct2, THEN conjunct2, THEN conjunct2, THEN conjunct1]
  have v: "pair_grid ! 0 = Some 5" "pair_grid ! 1 = Some 5" "pair_grid ! 2 = None"
    by (simp_all add: pair_grid_def)
  have sg: "same_group 0 1" "same_group 1 0"
    by (simp_all add: same_group_def)
  have "0 \<in> set (computeConflicts pair_grid)"
    unfolding eq using v sg by (intro CollectI conjI exI [of _ 5] exI [of _ "1::nat"]) simp_all
  moreover have "1 \<in> set (computeConflicts pair_grid)"
    unfolding eq using v sg by (intro CollectI conjI exI [of _ 5] exI [of _ "0::nat"]) simp_all
  moreover have "2 \<notin> set (computeConflicts pair_grid)"
    using filled v(3) by blast
  ultimately show ?thesis
    using len by blast
qed

lemma known_alphabet: "list_all (\<lambda>s. length s = 81 \<and> set s \<subseteq> grid_alphabet) knownSolutions"
  by (simp add: knownSolutions_def grid_alphabet_def)

lemma known_filled: "list_all (\<lambda>s. list_all (\<lambda>c. c \<noteq> None) (map cell_of_char s)) knownSolutions"
  by (simp add: knownSolutions_def cell_of_char_def)

lemma known_conflicts: "list_all (\<lambda>s. computeConflicts (map cell_of_char s) = []) knownSolutions"
  by code_simp

text \<open>
  C9. Each of the three known solutions parses, to a grid of 81 cells none of which is
  empty, and \<open>computeConflicts\<close> of that grid is the empty set.
\<close>

theorem knownSolutions_conflict_free:
  "length knownSolutions = 3 \<and>
   list_all (\<lambda>s. parseGrid s = Inr (map cell_of_char s) \<and>
                  length (map cell_of_char s) = 81 \<and>
                  list_all (\<lambda>c. c \<noteq> None) (map cell_of_char s) \<and>
                  computeConflicts (map cell_of_char s) = []) knownSolutions"
  using known_alphabet known_filled known_conflicts
  by (simp add: knownSolutions_def parseGrid_ok)

section \<open>Puzzle carving: proofs\<close>

subsection \<open>Rounding to the nearest integer\<close>

lemma rne_bounds: "of_int (rne x) \<le> x + 1 / 2 \<and> x - 1 / 2 \<le> of_int (rne x)"
  unfolding rne_def Let_def by (auto; linarith)

lemma rne_of_int: "rne (of_int k) = k"
  by (simp add: rne_def)

lemma rne_floor_cases: "rne x = \<lfloor>x\<rfloor> \<or> rne x = \<lfloor>x\<rfloor> + 1"
  by (simp add: rne_def Let_def)

lemma rne_mono:
  assumes "x \<le> y"
  shows "rne x \<le> rne y"
proof (cases "\<lfloor>x\<rfloor> < \<lfloor>y\<rfloor>")
  case True
  have "rne x \<le> \<lfloor>x\<rfloor> + 1"
    using rne_floor_cases [of x] by auto
  also have "\<dots> \<le> \<lfloor>y\<rfloor>"
    using True by simp
  also have "\<dots> \<le> rne y"
    using rne_floor_cases [of y] by auto
  finally show ?thesis .
next
  case False
  with assms have eq: "\<lfloor>x\<rfloor> = \<lfloor>y\<rfloor>"
    by (simp add: floor_mono order_antisym)
  then have "x - of_int \<lfloor>x\<rfloor> \<le> y - of_int \<lfloor>y\<rfloor>"
    using assms by simp
  then show ?thesis
    unfolding rne_def Let_def eq by auto
qed

subsection \<open>The binary exponent\<close>

lemma bitlen_powi:
  assumes "0 < a"
  shows "(2::rat) powi (bitlen a - 1) \<le> of_int a" and "of_int a < (2::rat) powi bitlen a"
proof -
  from bitlen_bounds [OF assms] have lo: "2 ^ nat (bitlen a - 1) \<le> a" and hi: "a < 2 ^ nat (bitlen a)"
    by simp_all
  have pos: "1 \<le> bitlen a"
    using assms by (auto simp: bitlen_alt_def)
  have "(2::rat) powi (bitlen a - 1) = 2 ^ nat (bitlen a - 1)"
    using pos by (simp add: power_int_nonneg_exp)
  also have "\<dots> = of_int (2 ^ nat (bitlen a - 1))"
    by simp
  also have "\<dots> \<le> of_int a"
    using lo by (simp only: of_int_le_iff)
  finally show "(2::rat) powi (bitlen a - 1) \<le> of_int a" .
  have "(of_int a :: rat) < of_int (2 ^ nat (bitlen a))"
    using hi by (simp only: of_int_less_iff)
  also have "\<dots> = 2 ^ nat (bitlen a)"
    by simp
  also have "\<dots> = (2::rat) powi bitlen a"
    using pos by (simp add: power_int_nonneg_exp)
  finally show "of_int a < (2::rat) powi bitlen a" .
qed

lemma powi2_less_cancel: "(2::rat) powi m < 2 powi n \<Longrightarrow> m < n"
  using power_int_increasing [of n m "2::rat"] by (cases "m < n") simp_all

lemma powi2_pos: "(0::rat) < 2 powi k"
  by (simp add: zero_less_power_int)

lemma expo_bounds:
  assumes "0 < x"
  shows "2 powi expo x \<le> x" and "x < 2 powi (expo x + 1)"
proof -
  obtain a b where q: "quotient_of x = (a, b)"
    by (cases "quotient_of x")
  then have b: "0 < b" and x: "x = of_int a / of_int b"
    by (simp_all add: quotient_of_denom_pos quotient_of_div)
  from assms x b have a: "0 < a"
    by (simp add: zero_less_divide_iff)
  define d where "d = bitlen a - bitlen b"
  have e: "expo x = (if 2 powi d \<le> x then d else d - 1)"
    by (simp add: expo_def q d_def Let_def)
  have bpos: "(0::rat) < of_int b" using b by simp
  have upper: "x < 2 powi (d + 1)"
  proof -
    have "x * of_int b = of_int a"
      using x b by simp
    also have "\<dots> < 2 powi bitlen a"
      by (rule bitlen_powi [OF a])
    also have "\<dots> = 2 powi (d + 1) * 2 powi (bitlen b - 1)"
      by (simp add: d_def flip: power_int_add)
    also have "\<dots> \<le> 2 powi (d + 1) * of_int b"
      using bitlen_powi(1) [OF b] by (simp add: mult_left_mono)
    finally show ?thesis
      using bpos by simp
  qed
  have lower: "2 powi (d - 1) < x"
  proof -
    have "(2::rat) powi (d - 1) * of_int b < 2 powi (d - 1) * 2 powi bitlen b"
      using bitlen_powi(2) [OF b] powi2_pos [of "d - 1"] by (rule mult_strict_left_mono)
    also have "\<dots> = 2 powi (bitlen a - 1)"
      by (simp add: d_def flip: power_int_add)
    also have "\<dots> \<le> of_int a"
      by (rule bitlen_powi [OF a])
    also have "\<dots> = x * of_int b"
      using x b by simp
    finally show ?thesis
      using bpos by simp
  qed
  show "2 powi expo x \<le> x"
    using lower by (simp add: e)
  show "x < 2 powi (expo x + 1)"
    using upper by (auto simp: e not_le)
qed

lemma expo_le:
  assumes "0 < x" "x < 2 powi (k + 1)"
  shows "expo x \<le> k"
proof -
  have "(2::rat) powi expo x < 2 powi (k + 1)"
    using expo_bounds(1) [OF assms(1)] assms(2) by simp
  then have "expo x < k + 1"
    by (rule powi2_less_cancel)
  then show ?thesis by simp
qed

lemma expo_ge:
  assumes "2 powi k \<le> x"
  shows "k \<le> expo x"
proof -
  have pos: "0 < x"
    using powi2_pos [of k] assms by (rule less_le_trans)
  have "(2::rat) powi k < 2 powi (expo x + 1)"
    using expo_bounds(2) [OF pos] assms by simp
  then have "k < expo x + 1"
    by (rule powi2_less_cancel)
  then show ?thesis by simp
qed

lemma expo_mono: "0 < x \<Longrightarrow> x \<le> y \<Longrightarrow> expo x \<le> expo y"
  using expo_bounds(1) [of x] expo_ge [of "expo x" y] by simp

subsection \<open>Rounding to a double is monotone and exact on small integers\<close>

lemma round_double_pos_def:
  "0 < x \<Longrightarrow> round_double x = of_int (rne (x / 2 powi (expo x - 52))) * 2 powi (expo x - 52)"
  by (simp add: round_double_def Let_def)

lemma powi2_shift: "(2::rat) powi e = 2 ^ k * 2 powi (e - int k)"
proof -
  have "(2::rat) powi e = 2 powi (int k + (e - int k))"
    by simp
  also have "\<dots> = 2 powi int k * 2 powi (e - int k)"
    by (rule power_int_add) simp
  finally show ?thesis
    by (simp only: power_int_of_nat)
qed

lemma powi2_52: "(2::rat) powi e = 2 ^ 52 * 2 powi (e - 52)"
  using powi2_shift [of e 52] by simp

lemma powi2_53: "(2::rat) powi (e + 1) = 2 ^ 53 * 2 powi (e - 52)"
  using powi2_shift [of "e + 1" 53] by simp

lemma scaled_bounds:
  assumes "0 < x"
  shows "2 ^ 52 \<le> x / 2 powi (expo x - 52)" and "x / 2 powi (expo x - 52) \<le> 2 ^ 53"
proof -
  let ?u = "(2::rat) powi (expo x - 52)"
  have u: "0 < ?u" by (rule powi2_pos)
  have "2 ^ 52 * ?u = 2 powi expo x"
    by (rule powi2_52 [symmetric])
  also have "\<dots> \<le> x"
    by (rule expo_bounds [OF assms])
  finally show "2 ^ 52 \<le> x / ?u"
    using u by (simp only: pos_le_divide_eq)
  have "x \<le> 2 powi (expo x + 1)"
    using expo_bounds(2) [OF assms] by simp
  also have "\<dots> = 2 ^ 53 * ?u"
    by (rule powi2_53)
  finally show "x / ?u \<le> 2 ^ 53"
    using u by (simp only: pos_divide_le_eq)
qed

lemma round_double_bounds:
  assumes "0 < x"
  shows "2 powi expo x \<le> round_double x" and "round_double x \<le> 2 powi (expo x + 1)"
proof -
  let ?u = "(2::rat) powi (expo x - 52)"
  let ?m = "rne (x / ?u)"
  have u: "0 < ?u" by (rule powi2_pos)
  have "rne (of_int (2 ^ 52)) \<le> ?m"
    using scaled_bounds(1) [OF assms] by (intro rne_mono) simp
  then have lo: "(2::rat) ^ 52 \<le> of_int ?m"
    unfolding rne_of_int by (metis of_int_le_iff of_int_numeral of_int_power)
  have "?m \<le> rne (of_int (2 ^ 53))"
    using scaled_bounds(2) [OF assms] by (intro rne_mono) simp
  then have hi: "of_int ?m \<le> (2::rat) ^ 53"
    unfolding rne_of_int by (metis of_int_le_iff of_int_numeral of_int_power)
  have "2 powi expo x = 2 ^ 52 * ?u"
    by (rule powi2_52)
  also have "\<dots> \<le> of_int ?m * ?u"
    using lo u by (intro mult_right_mono) simp_all
  finally show "2 powi expo x \<le> round_double x"
    by (simp add: round_double_pos_def [OF assms])
  have "of_int ?m * ?u \<le> 2 ^ 53 * ?u"
    using hi u by (intro mult_right_mono) simp_all
  also have "\<dots> = 2 powi (expo x + 1)"
    by (rule powi2_53 [symmetric])
  finally show "round_double x \<le> 2 powi (expo x + 1)"
    by (simp add: round_double_pos_def [OF assms])
qed

lemma round_double_nonneg: "0 \<le> x \<Longrightarrow> 0 \<le> round_double x"
proof (cases "x = 0")
  case True
  then show ?thesis by (simp add: round_double_def)
next
  case False
  assume "0 \<le> x"
  with False have x: "0 < x" by simp
  have "0 < (2::rat) powi expo x" by (rule powi2_pos)
  also have "\<dots> \<le> round_double x" by (rule round_double_bounds [OF x])
  finally show ?thesis by simp
qed

lemma round_double_mono:
  assumes "0 \<le> x" "x \<le> y"
  shows "round_double x \<le> round_double y"
proof (cases "x = 0")
  case True
  then have "round_double x = 0"
    by (simp add: round_double_def)
  moreover have "0 \<le> round_double y"
    using assms by (intro round_double_nonneg) simp
  ultimately show ?thesis by simp
next
  case False
  with assms have x: "0 < x" and y: "0 < y" by simp_all
  have le: "expo x \<le> expo y"
    using x assms(2) by (rule expo_mono)
  show ?thesis
  proof (cases "expo x = expo y")
    case True
    let ?u = "(2::rat) powi (expo y - 52)"
    have u: "0 < ?u" by (rule powi2_pos)
    have "x / ?u \<le> y / ?u"
      using assms(2) u by (simp add: divide_right_mono)
    then have "rne (x / ?u) \<le> rne (y / ?u)"
      by (rule rne_mono)
    then have "(of_int (rne (x / ?u)) :: rat) * ?u \<le> of_int (rne (y / ?u)) * ?u"
      using u by (simp add: mult_right_mono)
    then show ?thesis
      by (simp add: round_double_pos_def x y True)
  next
    case False
    with le have "expo x + 1 \<le> expo y" by simp
    then have "(2::rat) powi (expo x + 1) \<le> 2 powi expo y"
      by (intro power_int_increasing) simp_all
    with round_double_bounds(2) [OF x] round_double_bounds(1) [OF y] show ?thesis
      by simp
  qed
qed

lemma round_double_of_nat:
  assumes "n < 2 ^ 53"
  shows "round_double (of_nat n) = of_nat n"
proof (cases "n = 0")
  case True
  then show ?thesis by (simp add: round_double_def)
next
  case False
  let ?x = "of_nat n :: rat"
  have x: "0 < ?x" using False by simp
  have "?x < of_nat (2 ^ 53)"
    using assms by (simp only: of_nat_less_iff)
  also have "\<dots> = 2 powi (52 + 1)"
    by simp
  finally have "expo ?x \<le> 52"
    using x by (intro expo_le)
  then obtain k where k: "expo ?x - 52 = - int k"
    by (metis add.inverse_inverse diff_le_0_iff_le nonneg_int_cases neg_0_le_iff_le)
  have u: "(2::rat) powi (expo ?x - 52) = 1 / 2 ^ k"
    unfolding k by (simp add: power_int_minus field_simps)
  have "?x / (1 / 2 ^ k) = of_int (int n * 2 ^ k)"
    by simp
  then have "rne (?x / (1 / 2 ^ k)) = int n * 2 ^ k"
    by (simp only: rne_of_int)
  then show ?thesis
    by (simp add: round_double_pos_def [OF x] u)
qed

lemma round_double_one: "round_double 1 = 1"
  using round_double_of_nat [of 1] by simp

subsection \<open>Bounds on the drawn index\<close>

lemma lcg_exact: "0 \<le> state \<Longrightarrow> state < 2 ^ 32 \<Longrightarrow> state * 1664525 + 1013904223 < 2 ^ 53"
  for state :: int
proof -
  assume "0 \<le> state" "state < 2 ^ 32"
  then have "state * 1664525 \<le> 4294967295 * 1664525"
    by (intro mult_right_mono) simp_all
  then show ?thesis by simp
qed

lemma lcg_next_range: "0 \<le> lcg_next s" "lcg_next s \<le> 4294967295"
proof -
  have "0 \<le> lcg_next s \<and> lcg_next s < 4294967296"
    unfolding lcg_next_def by simp
  then show "0 \<le> lcg_next s" "lcg_next s \<le> 4294967295"
    by simp_all
qed

lemma to_uint32_range: "0 \<le> to_uint32 s" "to_uint32 s \<le> 4294967295"
proof -
  have "0 \<le> to_uint32 s \<and> to_uint32 s < 4294967296"
    unfolding to_uint32_def by simp
  then show "0 \<le> to_uint32 s" "to_uint32 s \<le> 4294967295"
    by simp_all
qed

lemma round_double_dyadic:
  assumes "m < 2 ^ 53"
  shows "round_double (of_nat m / 2 ^ k) = of_nat m / 2 ^ k"
proof (cases "m = 0")
  case True
  then show ?thesis by (simp add: round_double_def)
next
  case False
  let ?x = "of_nat m / 2 ^ k :: rat"
  have x: "0 < ?x" using False by simp
  have "(of_nat m :: rat) < of_nat (2 ^ 53)"
    using assms by (simp only: of_nat_less_iff)
  then have "(of_nat m :: rat) < 2 ^ 53"
    by simp
  then have "?x < 2 ^ 53 / 2 ^ k"
    by (simp add: divide_strict_right_mono)
  also have "\<dots> = 2 powi (52 - int k + 1)"
    by (simp add: power_int_diff)
  finally have "expo ?x \<le> 52 - int k"
    using x by (intro expo_le)
  then have "0 \<le> 52 - int k - expo ?x"
    by simp
  then obtain j where j: "52 - int k - expo ?x = int j"
    using nonneg_int_cases by blast
  then have e: "expo ?x - 52 = - int (k + j)"
    by simp
  have u: "(2::rat) powi (expo ?x - 52) = 1 / 2 ^ (k + j)"
    unfolding e by (simp only: power_int_minus power_int_of_nat inverse_eq_divide)
  have "?x / (1 / 2 ^ (k + j)) = of_int (int m * 2 ^ j)"
    by (simp add: power_add)
  then have "rne (?x / (1 / 2 ^ (k + j))) = int m * 2 ^ j"
    by (simp only: rne_of_int)
  then show ?thesis
    by (simp add: round_double_pos_def [OF x] u power_add)
qed

lemma rand_value_le_one:
  assumes "0 \<le> s" "s \<le> 4294967295"
  shows "0 \<le> round_double (of_int s / 4294967295)" "round_double (of_int s / 4294967295) \<le> 1"
proof -
  have q: "(0::rat) \<le> of_int s / 4294967295" "(of_int s :: rat) / 4294967295 \<le> 1"
    using assms by simp_all
  show "0 \<le> round_double (of_int s / 4294967295)"
    using q(1) by (rule round_double_nonneg)
  have "round_double (of_int s / 4294967295) \<le> round_double 1"
    using q by (rule round_double_mono)
  then show "round_double (of_int s / 4294967295) \<le> 1"
    by (simp add: round_double_one)
qed

lemma pick_le:
  assumes "0 \<le> s" "s \<le> 4294967295" "n < 2 ^ 53"
  shows "pick s n \<le> n"
proof -
  let ?r = "round_double (of_int s / 4294967295)"
  have r: "0 \<le> ?r" "?r \<le> 1"
    using assms(1,2) by (rule rand_value_le_one)+
  have "0 \<le> ?r * of_nat n" "?r * of_nat n \<le> of_nat n"
    using r by (simp_all add: mult_left_le_one_le)
  then have "round_double (?r * of_nat n) \<le> round_double (of_nat n)"
    by (rule round_double_mono)
  also have "\<dots> = of_nat n"
    using assms(3) by (rule round_double_of_nat)
  finally have "\<lfloor>round_double (?r * of_nat n)\<rfloor> \<le> int n"
    by (simp add: floor_le_iff)
  then show ?thesis
    by (simp add: pick_def)
qed

lemma below_one: "round_double (4294967294 / 4294967295) = 4294967295 / 2 ^ 32"
  by code_simp

lemma pick_less:
  assumes "0 \<le> s" "s < 4294967295" "1 \<le> n" "n \<le> 81"
  shows "pick s n < n"
proof -
  let ?r = "round_double (of_int s / 4294967295)"
  let ?c = "4294967295 / 2 ^ 32 :: rat"
  have "s \<le> 4294967294"
    using assms(2) by simp
  then have "(of_int s :: rat) \<le> of_int 4294967294"
    by (simp only: of_int_le_iff)
  then have "(of_int s :: rat) / 4294967295 \<le> 4294967294 / 4294967295"
    by (simp add: divide_right_mono)
  moreover have "(0::rat) \<le> of_int s / 4294967295"
    using assms(1) by simp
  ultimately have "?r \<le> round_double (4294967294 / 4294967295)"
    by (intro round_double_mono)
  then have c: "?r \<le> ?c"
    by (simp only: below_one)
  have r0: "0 \<le> ?r"
    using assms(1,2) by (intro rand_value_le_one) simp_all
  have "0 \<le> ?r * of_nat n"
    using r0 by simp
  moreover have "?r * of_nat n \<le> ?c * of_nat n"
    using c by (rule mult_right_mono) simp
  ultimately have "round_double (?r * of_nat n) \<le> round_double (?c * of_nat n)"
    by (rule round_double_mono)
  also have "?c * of_nat n = of_nat (4294967295 * n) / 2 ^ 32"
    by simp
  also have "round_double \<dots> = of_nat (4294967295 * n) / 2 ^ 32"
    using assms(4) by (intro round_double_dyadic) simp
  also have "\<dots> < of_nat n"
    using assms(3) by simp
  finally have "round_double (?r * of_nat n) < of_int (int n)"
    by simp
  then have "\<lfloor>round_double (?r * of_nat n)\<rfloor> < int n"
    by (simp only: floor_less_iff)
  then show ?thesis
    using assms(3) by (simp add: pick_def)
qed

subsection \<open>The shuffle loop while its swaps stay in range\<close>

lemma shuffle_loop_Suc:
  "shuffle_loop (Suc k) s xs =
     shuffle_loop k (lcg_next s) (swap_indices xs (Suc k) (pick (lcg_next s) (Suc k + 1)))"
  by (simp add: rand_def pick_def Let_def)

lemma swap_indices_prefix:
  assumes "i < length p" "j < length p"
  shows "swap_indices (map Some p @ t) i j = map Some (swap p i j) @ t"
  using assms
  by (simp add: swap_indices_def array_get_def array_set_def swap_def Let_def nth_append
      list_update_append map_update)

lemma swap_props:
  assumes "i < length p" "j < length p"
  shows "length (swap p i j) = length p"
    and "set (swap p i j) = set p"
    and "distinct (swap p i j) = distinct p"
  using assms by (simp_all add: swap_def)

lemma shuffle_refines:
  assumes "k < length p" "draws_below (length p) k s"
  shows "shuffle_loop k s (map Some p @ t) = map Some (shuffle_pure k s p) @ t \<and>
         length (shuffle_pure k s p) = length p \<and>
         set (shuffle_pure k s p) = set p \<and>
         distinct (shuffle_pure k s p) = distinct p"
  using assms
proof (induction k arbitrary: s p)
  case 0
  show ?case by simp
next
  case (Suc k)
  let ?s = "lcg_next s"
  let ?j = "pick ?s (Suc k + 1)"
  let ?q = "swap p (Suc k) ?j"
  from Suc.prems have j: "?j < length p" and rest: "draws_below (length p) k ?s"
    by simp_all
  have i: "Suc k < length p" by (rule Suc.prems)
  note q = swap_props [OF i j]
  have "k < length ?q" using i q(1) by simp
  moreover have "draws_below (length ?q) k ?s" using rest q(1) by simp
  ultimately have IH:
    "shuffle_loop k ?s (map Some ?q @ t) = map Some (shuffle_pure k ?s ?q) @ t \<and>
     length (shuffle_pure k ?s ?q) = length ?q \<and>
     set (shuffle_pure k ?s ?q) = set ?q \<and>
     distinct (shuffle_pure k ?s ?q) = distinct ?q"
    by (rule Suc.IH)
  have "swap_indices (map Some p @ t) (Suc k) ?j = map Some ?q @ t"
    using i j by (rule swap_indices_prefix)
  then have "shuffle_loop (Suc k) s (map Some p @ t) = shuffle_loop k ?s (map Some ?q @ t)"
    by (simp only: shuffle_loop_Suc)
  with IH q show ?case
    by simp
qed

lemma draws_below_weak:
  assumes "0 \<le> s" "s \<le> 4294967295" "k + 1 < m" "k < 80"
  shows "draws_below m k s"
  using assms
proof (induction k arbitrary: s)
  case 0
  show ?case by simp
next
  case (Suc k)
  have "pick (lcg_next s) (Suc k + 1) \<le> Suc k + 1"
    using lcg_next_range [of s] Suc.prems(4) by (intro pick_le) simp_all
  with Suc.prems(3) have "pick (lcg_next s) (Suc k + 1) < m"
    by simp
  moreover have "draws_below m k (lcg_next s)"
    using lcg_next_range [of s] Suc.prems by (intro Suc.IH) simp_all
  ultimately show ?case by simp
qed

lemma draws_below_strict:
  assumes "0 \<le> s" "s \<le> 4294967295" "lcg_next s \<noteq> 4294967295" "Suc k < m" "k < 80"
  shows "draws_below m (Suc k) s"
proof -
  have "lcg_next s < 4294967295"
    using lcg_next_range [of s] assms(3) by simp
  then have "pick (lcg_next s) (Suc k + 1) < Suc k + 1"
    using lcg_next_range [of s] assms(5) by (intro pick_less) simp_all
  with assms(4) have "pick (lcg_next s) (Suc k + 1) < m"
    by simp
  moreover have "draws_below m k (lcg_next s)"
    using lcg_next_range [of s] assms(4,5) by (intro draws_below_weak) simp_all
  ultimately show ?thesis by simp
qed

subsection \<open>The blanking loop\<close>

lemma blank_fold:
  assumes "\<forall>i<b. array_get xs i = None \<or> (\<exists>k<length cs. array_get xs i = Some k)"
  shows "fold (blank_at xs) [0..<b] cs =
     map (\<lambda>k. if \<exists>i<b. array_get xs i = Some k then ''.'' else cs ! k) [0..<length cs]"
  using assms
proof (induction b)
  case 0
  show ?case by (simp add: map_nth)
next
  case (Suc b)
  define hit where "hit b k \<longleftrightarrow> (\<exists>i<b. array_get xs i = Some k)" for b k
  define row where "row b = map (\<lambda>k. if hit b k then ''.'' else cs ! k) [0..<length cs]" for b
  have hit_Suc: "hit (Suc b) k \<longleftrightarrow> hit b k \<or> array_get xs b = Some k" for k
    unfolding hit_def by (auto simp: less_Suc_eq)
  have row_len: "length (row b) = length cs" for b
    by (simp add: row_def)
  have row_nth: "row b ! i = (if hit b i then ''.'' else cs ! i)" if "i < length cs" for b i
    using that by (simp add: row_def)
  have IH: "fold (blank_at xs) [0..<b] cs = row b"
    unfolding row_def hit_def using Suc.prems by (intro Suc.IH) simp
  have "[0..<Suc b] = [0..<b] @ [b]"
    by simp
  then have "fold (blank_at xs) [0..<Suc b] cs = blank_at xs b (fold (blank_at xs) [0..<b] cs)"
    by (simp only: fold_append fold_simps o_apply id_apply)
  then have step: "fold (blank_at xs) [0..<Suc b] cs = blank_at xs b (row b)"
    by (simp only: IH)
  have range: "array_get xs b = None \<or> (\<exists>k<length cs. array_get xs b = Some k)"
    using Suc.prems by simp
  have "blank_at xs b (row b) = row (Suc b)"
  proof (cases "array_get xs b")
    case 1: None
    then have "hit (Suc b) k = hit b k" for k
      by (simp add: hit_Suc)
    then have "row (Suc b) = row b"
      by (simp add: row_def)
    moreover have "blank_at xs b (row b) = row b"
      using 1 by (simp add: blank_at_def)
    ultimately show ?thesis by simp
  next
    case (Some k)
    with range have 2: "k < length cs" "array_get xs b = Some k"
      by simp_all
    have "blank_at xs b (row b) = (row b)[k := ''.'']"
      using 2 by (simp add: blank_at_def array_set_def row_len)
    also have "\<dots> = row (Suc b)"
    proof (rule nth_equalityI)
      show "length ((row b)[k := ''.'']) = length (row (Suc b))"
        by (simp add: row_len)
      fix i assume "i < length ((row b)[k := ''.''])"
      then have i: "i < length cs" by (simp add: row_len)
      show "(row b)[k := ''.''] ! i = row (Suc b) ! i"
      proof (cases "i = k")
        case True
        then show ?thesis
          using i 2(2) by (simp add: row_nth row_len hit_Suc)
      next
        case False
        then have "hit (Suc b) i = hit b i"
          using 2(2) by (simp add: hit_Suc)
        with False i show ?thesis
          by (simp add: row_nth)
      qed
    qed
    finally show ?thesis .
  qed
  then show ?case
    unfolding step row_def hit_def .
qed

lemma concat_cells:
  "concat (map (\<lambda>k. if B k then ''.'' else map (\<lambda>c. [c]) sol ! k) [0..<length sol]) =
     map (\<lambda>k. if B k then CHR ''.'' else sol ! k) [0..<length sol]"
proof -
  have "map (\<lambda>k. if B k then ''.'' else map (\<lambda>c. [c]) sol ! k) [0..<length sol] =
        map (\<lambda>k. [if B k then CHR ''.'' else sol ! k]) [0..<length sol]"
    by (rule map_cong) simp_all
  then show ?thesis
    by (simp only: concat_map_singleton)
qed

lemma carve_unfold:
  "carve sol b seed =
     concat (fold (blank_at (shuffle_loop 80 (to_uint32 seed) (map Some [0..<81]))) [0..<nat b]
       (map (\<lambda>c. [c]) sol))"
  unfolding carve_def Let_def by (simp del: shuffle_loop.simps)

lemma array_get_hit:
  assumes "\<forall>i<b. length p \<le> i \<longrightarrow> array_get (map Some p @ t) i = None"
  shows "(\<exists>i<b. array_get (map Some p @ t) i = Some k) \<longleftrightarrow> k \<in> set (take b p)"
proof
  assume "\<exists>i<b. array_get (map Some p @ t) i = Some k"
  then obtain i where i: "i < b" "array_get (map Some p @ t) i = Some k"
    by blast
  have "i < length p"
  proof (rule ccontr)
    assume "\<not> i < length p"
    then have "array_get (map Some p @ t) i = None"
      using assms i(1) by simp
    with i(2) show False by simp
  qed
  with i have "k = take b p ! i" "i < length (take b p)"
    by (simp_all add: array_get_def nth_append)
  then show "k \<in> set (take b p)"
    by (metis nth_mem)
next
  assume "k \<in> set (take b p)"
  then obtain i where i: "i < length (take b p)" "take b p ! i = k"
    by (meson in_set_conv_nth)
  then have "i < b" "i < length p" "p ! i = k"
    by simp_all
  then have "i < b \<and> array_get (map Some p @ t) i = Some k"
    by (simp add: array_get_def nth_append)
  then show "\<exists>i<b. array_get (map Some p @ t) i = Some k"
    by blast
qed

subsection \<open>The shuffle of the reference algorithm\<close>

lemma lcg_next_to_uint32: "lcg_next (to_uint32 seed) = lcg_next seed"
proof -
  have "(seed mod 2 ^ 32 * 1664525 + 1013904223) mod 2 ^ 32 =
      (seed * 1664525 + 1013904223) mod 2 ^ 32"
    by (metis mod_add_left_eq mod_mult_left_eq)
  then show ?thesis
    by (simp only: lcg_next_def to_uint32_def)
qed

lemma spec_state_funpow: "spec_state seed k = (lcg_next ^^ k) seed"
proof -
  have "(\<lambda>state. (state * 1664525 + 1013904223) mod 2 ^ 32) = lcg_next"
    by (simp add: fun_eq_iff lcg_next_def)
  then show ?thesis
    by (simp add: spec_state_def)
qed

lemma spec_state_Suc: "spec_state seed (Suc k) = (lcg_next ^^ Suc k) (to_uint32 seed)"
proof -
  have "(lcg_next ^^ Suc k) seed = (lcg_next ^^ k) (lcg_next seed)"
    by (simp only: funpow_Suc_right o_apply)
  also have "\<dots> = (lcg_next ^^ k) (lcg_next (to_uint32 seed))"
    by (simp only: lcg_next_to_uint32)
  also have "\<dots> = (lcg_next ^^ Suc k) (to_uint32 seed)"
    by (simp only: funpow_Suc_right o_apply)
  finally show ?thesis
    by (simp only: spec_state_funpow)
qed

lemma fy_step_pick:
  "fy_step seed (Suc k) p =
     swap p (81 - Suc k) (pick ((lcg_next ^^ Suc k) (to_uint32 seed)) (81 - Suc k + 1))"
  by (simp only: fy_step_def Let_def spec_stream_def spec_state_Suc pick_def) simp

lemma shuffle_pure_fold:
  assumes "k \<le> 80"
  shows "shuffle_pure k ((lcg_next ^^ (80 - k)) (to_uint32 seed)) p =
     fold (fy_step seed) [81 - k..<81] p"
  using assms
proof (induction k arbitrary: p)
  case 0
  show ?case by simp
next
  case (Suc k)
  let ?s0 = "to_uint32 seed"
  have k: "k \<le> 79" using Suc.prems by simp
  have "80 - Suc k = 79 - k"
    by simp
  then have st: "lcg_next ((lcg_next ^^ (80 - Suc k)) ?s0) = (lcg_next ^^ Suc (79 - k)) ?s0"
    by (simp only: funpow.simps o_apply)
  have idx: "80 - k = Suc (79 - k)" "81 - Suc (79 - k) = Suc k"
    using k by simp_all
  have "Suc (80 - k) = 81 - k" "80 - k < 81" "81 - Suc k = 80 - k"
    using k by simp_all
  then have "[81 - Suc k..<81] = (80 - k) # [81 - k..<81]"
    by (metis upt_conv_Cons)
  then have "fold (fy_step seed) [81 - Suc k..<81] p =
      fold (fy_step seed) [81 - k..<81] (fy_step seed (80 - k) p)"
    by simp
  also have "fy_step seed (80 - k) p =
      swap p (Suc k) (pick ((lcg_next ^^ Suc (79 - k)) ?s0) (Suc k + 1))"
    unfolding idx(1) fy_step_pick idx(2) ..
  also have "fold (fy_step seed) [81 - k..<81] \<dots> =
      shuffle_pure k ((lcg_next ^^ (80 - k)) ?s0)
        (swap p (Suc k) (pick ((lcg_next ^^ Suc (79 - k)) ?s0) (Suc k + 1)))"
    using k by (intro Suc.IH [symmetric]) simp
  also have "\<dots> = shuffle_pure (Suc k) ((lcg_next ^^ (80 - Suc k)) ?s0) p"
    unfolding shuffle_pure.simps st idx(1) ..
  finally show ?case by simp
qed

lemma fisher_yates_pure:
  "fisher_yates round_double (spec_stream round_double seed) =
     shuffle_pure 80 (to_uint32 seed) [0..<81]"
proof -
  have "fisher_yates round_double (spec_stream round_double seed) =
      fold (fy_step seed) [1..<81] [0..<81]"
    unfolding fisher_yates_def fy_step_def ..
  also have "\<dots> = shuffle_pure 80 ((lcg_next ^^ (80 - 80)) (to_uint32 seed)) [0..<81]"
    using shuffle_pure_fold [of 80 seed "[0..<81]"] by simp
  finally show ?thesis by simp
qed

subsection \<open>The two outcomes of the first draw\<close>

lemma carve_from_shuffle:
  assumes sh: "shuffle_loop 80 (to_uint32 seed) (map Some [0..<81]) = map Some P @ t"
    and P: "set P \<subseteq> {..<length sol}"
    and t: "\<forall>i<nat b. length P \<le> i \<longrightarrow> array_get (map Some P @ t) i = None"
  shows "carve sol b seed =
     map (\<lambda>k. if k \<in> set (take (nat b) P) then CHR ''.'' else sol ! k) [0..<length sol]"
proof -
  let ?xs = "map Some P @ t" and ?cs = "map (\<lambda>c. [c]) sol"
  have "\<forall>i<nat b. array_get ?xs i = None \<or> (\<exists>k<length ?cs. array_get ?xs i = Some k)"
  proof (intro allI impI)
    fix i assume i: "i < nat b"
    show "array_get ?xs i = None \<or> (\<exists>k<length ?cs. array_get ?xs i = Some k)"
    proof (cases "i < length P")
      case True
      then have "array_get ?xs i = Some (P ! i)" "P ! i \<in> set P"
        by (simp_all add: array_get_def nth_append)
      with P show ?thesis by auto
    next
      case False
      with t i show ?thesis by simp
    qed
  qed
  then have "fold (blank_at ?xs) [0..<nat b] ?cs =
      map (\<lambda>k. if \<exists>i<nat b. array_get ?xs i = Some k then ''.'' else ?cs ! k) [0..<length ?cs]"
    by (rule blank_fold)
  also have "\<dots> = map (\<lambda>k. if k \<in> set (take (nat b) P) then ''.'' else ?cs ! k) [0..<length sol]"
    by (simp only: array_get_hit [OF t] length_map)
  finally show ?thesis
    by (simp only: carve_unfold sh concat_cells)
qed

lemma shuffle_good:
  assumes "lcg_next (to_uint32 seed) \<noteq> 4294967295"
  shows "shuffle_loop 80 (to_uint32 seed) (map Some [0..<81]) =
           map Some (shuffle_pure 80 (to_uint32 seed) [0..<81])"
    and "length (shuffle_pure 80 (to_uint32 seed) [0..<81]) = 81"
    and "set (shuffle_pure 80 (to_uint32 seed) [0..<81]) = {..<81}"
    and "distinct (shuffle_pure 80 (to_uint32 seed) [0..<81])"
proof -
  let ?s = "to_uint32 seed" and ?p = "[0..<81]"
  have d: "draws_below (length ?p) 80 ?s"
    using draws_below_strict [of ?s 79 81] to_uint32_range [of seed] assms by simp
  have "80 < length ?p" by simp
  from shuffle_refines [OF this d, of "[]"]
  show "shuffle_loop 80 ?s (map Some ?p) = map Some (shuffle_pure 80 ?s ?p)"
    and "length (shuffle_pure 80 ?s ?p) = 81"
    and "set (shuffle_pure 80 ?s ?p) = {..<81}"
    and "distinct (shuffle_pure 80 ?s ?p)"
    by (simp_all add: lessThan_atLeast0)
qed

lemma lcg_after_max: "lcg_next 4294967295 = 1012239698"
  by (simp add: lcg_next_def)

lemma pick_max: "pick 4294967295 81 = 81"
proof -
  have "round_double (of_int 4294967295 / 4294967295) = 1"
    by (simp add: round_double_one)
  moreover have "round_double (of_nat 81) = of_nat 81"
    by (rule round_double_of_nat) simp
  ultimately show ?thesis
    by (simp add: pick_def)
qed

lemma first_swap_out_of_range:
  "swap_indices (map Some [0..<81]) 80 81 = map Some [0..<80] @ [None, Some 80]"
proof -
  have "[0..<Suc 80] = [0..<80] @ [80]"
    by (rule upt_Suc_append) simp
  moreover have "Suc 80 = 81"
    by simp
  ultimately have "[0..<81] = [0..<80] @ [80]"
    by (simp only:)
  then show ?thesis
    by (simp add: swap_indices_def array_get_def array_set_def Let_def nth_append
        list_update_append del: upt_Suc)
qed

lemma shuffle_bad:
  assumes "lcg_next (to_uint32 seed) = 4294967295"
  shows "shuffle_loop 80 (to_uint32 seed) (map Some [0..<81]) =
           map Some (shuffle_pure 79 4294967295 [0..<80]) @ [None, Some 80]"
    and "length (shuffle_pure 79 4294967295 [0..<80]) = 80"
    and "set (shuffle_pure 79 4294967295 [0..<80]) = {..<80}"
    and "distinct (shuffle_pure 79 4294967295 [0..<80])"
proof -
  let ?p = "[0..<80]"
  have "80 = Suc 79" by simp
  then have "shuffle_loop 80 (to_uint32 seed) (map Some [0..<81]) =
      shuffle_loop 79 4294967295 (swap_indices (map Some [0..<81]) 80 (pick 4294967295 81))"
    by (simp only: shuffle_loop_Suc assms) simp
  then have first: "shuffle_loop 80 (to_uint32 seed) (map Some [0..<81]) =
      shuffle_loop 79 4294967295 (map Some ?p @ [None, Some 80])"
    by (simp only: pick_max first_swap_out_of_range)
  have d: "draws_below (length ?p) 79 4294967295"
    using draws_below_strict [of 4294967295 78 80] by (simp add: lcg_after_max)
  have "79 < length ?p" by simp
  from shuffle_refines [OF this d, of "[None, Some 80]"] first
  show "shuffle_loop 80 (to_uint32 seed) (map Some [0..<81]) =
           map Some (shuffle_pure 79 4294967295 ?p) @ [None, Some 80]"
    and "length (shuffle_pure 79 4294967295 ?p) = 80"
    and "set (shuffle_pure 79 4294967295 ?p) = {..<80}"
    and "distinct (shuffle_pure 79 4294967295 ?p)"
    by (simp_all add: lessThan_atLeast0)
qed

lemma carve_good:
  assumes "lcg_next (to_uint32 seed) \<noteq> 4294967295" "length sol = 81"
  shows "carve sol b seed =
     map (\<lambda>k. if k \<in> set (take (nat b) (shuffle_pure 80 (to_uint32 seed) [0..<81]))
               then CHR ''.'' else sol ! k) [0..<length sol]"
proof (rule carve_from_shuffle [where t = "[]"])
  note g = shuffle_good [OF assms(1)]
  let ?P = "shuffle_pure 80 (to_uint32 seed) [0..<81]"
  show "shuffle_loop 80 (to_uint32 seed) (map Some [0..<81]) = map Some ?P @ []"
    using g(1) by simp
  show "set ?P \<subseteq> {..<length sol}"
    using g(3) assms(2) by simp
  show "\<forall>i<nat b. length ?P \<le> i \<longrightarrow> array_get (map Some ?P @ []) i = None"
    by (simp add: array_get_def)
qed

lemma carve_bad:
  assumes "lcg_next (to_uint32 seed) = 4294967295" "length sol = 81" "b \<le> 81"
  shows "carve sol b seed =
     map (\<lambda>k. if k \<in> set (take (nat b) (shuffle_pure 79 4294967295 [0..<80]))
               then CHR ''.'' else sol ! k) [0..<length sol]"
proof (rule carve_from_shuffle [where t = "[None, Some 80]"])
  note g = shuffle_bad [OF assms(1)]
  let ?P = "shuffle_pure 79 4294967295 [0..<80]"
  show "shuffle_loop 80 (to_uint32 seed) (map Some [0..<81]) = map Some ?P @ [None, Some 80]"
    by (rule g(1))
  show "set ?P \<subseteq> {..<length sol}"
    using g(3) assms(2) by auto
  show "\<forall>i<nat b. length ?P \<le> i \<longrightarrow> array_get (map Some ?P @ [None, Some 80]) i = None"
  proof (intro allI impI)
    fix i assume "i < nat b" "length ?P \<le> i"
    with assms(3) g(2) have "i = 80" by simp
    then show "array_get (map Some ?P @ [None, Some 80]) i = None"
      using g(2) by (simp add: array_get_def nth_append)
  qed
qed

subsection \<open>What \<^verbatim>\<open>carve\<close> returns\<close>

lemma carve_refines:
  assumes "length sol = 81" "spec_state seed 1 \<noteq> 4294967295"
  shows "carve sol b seed = carve_spec round_double sol b seed"
proof -
  have "spec_state seed 1 = lcg_next (to_uint32 seed)"
    using spec_state_Suc [of seed 0] by simp
  with assms(2) have good: "lcg_next (to_uint32 seed) \<noteq> 4294967295"
    by simp
  show ?thesis
    unfolding carve_spec_def Let_def fisher_yates_pure
    by (rule carve_good [OF good assms(1)])
qed

lemma carve_shape:
  assumes "length sol = 81" "0 \<le> b" "b \<le> 81"
    and "lcg_next (to_uint32 seed) \<noteq> 4294967295 \<or> b \<le> 80"
  obtains B where "card B = nat b" "B \<subseteq> {..<81}"
    "carve sol b seed = map (\<lambda>k. if k \<in> B then CHR ''.'' else sol ! k) [0..<81]"
proof (cases "lcg_next (to_uint32 seed) = 4294967295")
  case False
  note g = shuffle_good [OF False]
  let ?P = "shuffle_pure 80 (to_uint32 seed) [0..<81]"
  let ?B = "set (take (nat b) ?P)"
  have "distinct (take (nat b) ?P)"
    using g(4) by simp
  then have "card ?B = length (take (nat b) ?P)"
    by (rule distinct_card)
  then have "card ?B = nat b"
    using g(2) assms(3) by simp
  moreover have "?B \<subseteq> {..<81}"
    using g(3) set_take_subset [of "nat b" ?P] by simp
  moreover have "carve sol b seed = map (\<lambda>k. if k \<in> ?B then CHR ''.'' else sol ! k) [0..<81]"
    using carve_good [OF False assms(1), of b] assms(1) by simp
  ultimately show ?thesis
    by (rule that)
next
  case True
  with assms(4) have b: "b \<le> 80" by simp
  note g = shuffle_bad [OF True]
  let ?P = "shuffle_pure 79 4294967295 [0..<80]"
  let ?B = "set (take (nat b) ?P)"
  have "distinct (take (nat b) ?P)"
    using g(4) by simp
  then have "card ?B = length (take (nat b) ?P)"
    by (rule distinct_card)
  then have "card ?B = nat b"
    using g(2) b by simp
  moreover have "?B \<subseteq> {..<80}"
    using g(3) set_take_subset [of "nat b" ?P] by simp
  then have "?B \<subseteq> {..<81}"
    by auto
  moreover have "carve sol b seed = map (\<lambda>k. if k \<in> ?B then CHR ''.'' else sol ! k) [0..<81]"
    using carve_bad [OF True assms(1,3), of ] assms(1) by simp
  ultimately show ?thesis
    by (rule that)
qed

lemma count_blanked:
  assumes "card B = n" "B \<subseteq> {..<81}" "length sol = 81" "\<forall>c \<in> set sol. \<not> P c" "P (CHR ''.'')"
  shows "length (filter P (map (\<lambda>k. if k \<in> B then CHR ''.'' else sol ! k) [0..<81])) = n"
proof -
  have "filter (\<lambda>k. P (if k \<in> B then CHR ''.'' else sol ! k)) [0..<81] = filter (\<lambda>k. k \<in> B) [0..<81]"
    using assms(3,4,5) by (intro filter_cong) auto
  then have "length (filter P (map (\<lambda>k. if k \<in> B then CHR ''.'' else sol ! k) [0..<81])) =
      length (filter (\<lambda>k. k \<in> B) [0..<81])"
    by (simp add: filter_map o_def)
  also have "\<dots> = card ({k. k \<in> B} \<inter> set [0..<81])"
    by (rule distinct_length_filter) simp
  also have "{k. k \<in> B} \<inter> set [0..<81] = B"
    using assms(2) by auto
  finally show ?thesis
    using assms(1) by simp
qed


lemma carve_round_trip:
  assumes "length sol = 81" "set sol \<subseteq> set ''123456789''" "0 \<le> b" "b \<le> 81"
    and "lcg_next (to_uint32 seed) \<noteq> 4294967295 \<or> b \<le> 80"
  shows "\<exists>g. parseGrid (carve sol b seed) = Inr g \<and> length g = 81 \<and>
           length (filter (\<lambda>v. v = None) g) = nat b \<and>
           (\<forall>k<81. g ! k \<noteq> None \<longrightarrow> g ! k = cell_of_char (sol ! k))"
proof -
  from assms(1,3,4,5) obtain B where B: "card B = nat b" "B \<subseteq> {..<81}"
    "carve sol b seed = map (\<lambda>k. if k \<in> B then CHR ''.'' else sol ! k) [0..<81]"
    by (rule carve_shape)
  let ?c = "carve sol b seed"
  let ?g = "map cell_of_char ?c"
  have digits: "set ''123456789'' \<subseteq> grid_alphabet" "CHR ''.'' \<in> grid_alphabet"
    by (simp_all add: grid_alphabet_def)
  have "set ?c \<subseteq> insert (CHR ''.'') (set sol)"
    unfolding B(3) using assms(1) by auto
  with assms(2) digits have al: "set ?c \<subseteq> grid_alphabet"
    by blast
  have len: "length ?c = 81"
    by (simp add: B(3))
  have p: "parseGrid ?c = Inr ?g"
    using len al by (rule parseGrid_ok)
  have none: "cell_of_char c \<noteq> None" if "c \<in> set sol" for c
    using that assms(2) by (auto simp: cell_of_char_def)
  have "length (filter (\<lambda>v. v = None) ?g) = length (filter (\<lambda>c. cell_of_char c = None) ?c)"
    by (simp add: filter_map o_def)
  also have "\<dots> = nat b"
    unfolding B(3) using B(1,2) assms(1) none
    by (intro count_blanked) (simp_all add: cell_of_char_def)
  finally have cnt: "length (filter (\<lambda>v. v = None) ?g) = nat b" .
  have "?g ! k = cell_of_char (sol ! k)" if "k < 81" "?g ! k \<noteq> None" for k
  proof (cases "k \<in> B")
    case True
    with that show ?thesis
      by (simp add: B(3) cell_of_char_def)
  next
    case False
    with that(1) show ?thesis
      by (simp add: B(3))
  qed
  with p cnt len show ?thesis
    by simp
qed

lemma bad_seed: "lcg_next (to_uint32 653637408) = 4294967295"
  by (simp add: lcg_next_def to_uint32_def)

lemma carve_bad_all:
  assumes "length sol = 81"
  shows "carve sol 81 653637408 = replicate 80 (CHR ''.'') @ [sol ! 80]"
proof -
  note g = shuffle_bad [OF bad_seed]
  let ?P = "shuffle_pure 79 4294967295 [0..<80]"
  have "take (nat 81) ?P = ?P"
    using g(2) by simp
  then have "carve sol 81 653637408 =
      map (\<lambda>k. if k \<in> {..<80} then CHR ''.'' else sol ! k) [0..<length sol]"
    using carve_bad [OF bad_seed assms, of 81] g(3) by simp
  also have "\<dots> = map (\<lambda>k. if k < 80 then CHR ''.'' else sol ! k) ([0..<80] @ [80])"
    using assms upt_Suc_append [of 0 80] by simp
  also have "\<dots> = map (\<lambda>k. CHR ''.'') [0..<80] @ [sol ! 80]"
    by simp
  also have "map (\<lambda>k. CHR ''.'') [0..<80] = replicate 80 (CHR ''.'')"
    by (simp only: map_replicate_const length_upt diff_zero)
  finally show ?thesis .
qed

text \<open>
  C2. The round trip holds whenever the first state of the generator is not \<open>2 ^ 32 - 1\<close>
  or at most 80 cells are blanked (\<open>carve_round_trip\<close>). At seed 653637408 the first
  state is \<open>2 ^ 32 - 1\<close>, the stream value \<^verbatim>\<open>state / 0xffffffff\<close> is 1, the first swap
  reads \<^verbatim>\<open>indices[81]\<close>, and \<^verbatim>\<open>carve\<close> with 81 blanks leaves the last cell of the
  solution in place: the parsed grid has 80 empty cells, not 81.
\<close>

theorem carve_misses_a_blank:
  "carve (knownSolutions ! 0) 81 653637408 = replicate 80 (CHR ''.'') @ ''9'' \<and>
   parseGrid (carve (knownSolutions ! 0) 81 653637408) = Inr (replicate 80 None @ [Some 9]) \<and>
   length (filter (\<lambda>v. v = None) (projr (parseGrid (carve (knownSolutions ! 0) 81 653637408)))) = 80"
proof -
  have len: "length (knownSolutions ! 0) = 81" and last: "knownSolutions ! 0 ! 80 = CHR ''9''"
    by (simp_all add: knownSolutions_def)
  have c: "carve (knownSolutions ! 0) 81 653637408 = replicate 80 (CHR ''.'') @ ''9''"
    using carve_bad_all [OF len] last by simp
  have "length (replicate 80 (CHR ''.'') @ ''9'') = 81"
    "set (replicate 80 (CHR ''.'') @ ''9'') \<subseteq> grid_alphabet"
    by (simp_all add: grid_alphabet_def)
  then have "parseGrid (replicate 80 (CHR ''.'') @ ''9'') =
      Inr (map cell_of_char (replicate 80 (CHR ''.'') @ ''9''))"
    by (rule parseGrid_ok)
  also have "map cell_of_char (replicate 80 (CHR ''.'') @ ''9'') = replicate 80 None @ [Some 9]"
    by (simp add: cell_of_char_def)
  finally have p: "parseGrid (replicate 80 (CHR ''.'') @ ''9'') = Inr (replicate 80 None @ [Some 9])" .
  show ?thesis
    unfolding c p by simp
qed

subsection \<open>Draws away from an integer boundary\<close>

lemma sandwich:
  assumes lo: "of_nat a / 2 ^ 40 \<le> x" and hi: "x \<le> of_nat c / 2 ^ 40" and c: "c < 2 ^ 53"
    and ac: "a \<le> c"
  shows "of_nat a / 2 ^ 40 \<le> round_double x" "round_double x \<le> of_nat c / 2 ^ 40"
proof -
  have a: "a < 2 ^ 53" using ac c by simp
  have "(0::rat) \<le> of_nat a / 2 ^ 40" by simp
  then have "round_double (of_nat a / 2 ^ 40) \<le> round_double x"
    using lo by (rule round_double_mono)
  then show "of_nat a / 2 ^ 40 \<le> round_double x"
    by (simp only: round_double_dyadic [OF a])
  have "(0::rat) \<le> x" using lo by (rule order_trans [rotated]) simp
  then have "round_double x \<le> round_double (of_nat c / 2 ^ 40)"
    using hi by (rule round_double_mono)
  then show "round_double x \<le> of_nat c / 2 ^ 40"
    by (simp only: round_double_dyadic [OF c])
qed

lemma int_div_bounds:
  fixes x b :: int
  assumes "0 < b"
  shows "x div b * b \<le> x" "x < (x div b + 1) * b"
proof -
  have e: "x div b * b + x mod b = x"
    by (rule div_mult_mod_eq)
  have m: "0 \<le> x mod b" "x mod b < b"
    using assms by simp_all
  show "x div b * b \<le> x"
    using e m(1) by linarith
  have "(x div b + 1) * b = x div b * b + b"
    by (simp add: algebra_simps)
  then show "x < (x div b + 1) * b"
    using e m(2) by linarith
qed

lemma pick_generic:
  assumes "generic s n"
  shows "pick s n = pick_int s n"
proof -
  from assms have s: "0 \<le> s" "s \<le> 4294967295" and n: "n \<le> 81"
    and g: "(s * 2 ^ 40 div 4294967295 + 1) * int n div 2 ^ 40 = s * 2 ^ 40 div 4294967295 * int n div 2 ^ 40"
    by (simp_all add: generic_def)
  define a where "a = nat (s * 2 ^ 40 div 4294967295)"
  have a0: "0 \<le> s * 2 ^ 40 div 4294967295"
    using s(1) by (simp add: pos_imp_zdiv_nonneg_iff)
  then have ia: "int a = s * 2 ^ 40 div 4294967295"
    by (simp add: a_def)
  have "s * 2 ^ 40 \<le> 4294967295 * 2 ^ 40"
    using s(2) by simp
  then have "s * 2 ^ 40 div 4294967295 \<le> 4294967295 * 2 ^ 40 div 4294967295"
    by (rule zdiv_mono1) simp
  then have "int a \<le> 2 ^ 40"
    unfolding ia by simp
  then have a_le: "a \<le> 2 ^ 40"
    by (metis of_nat_le_iff of_nat_numeral of_nat_power)
  have "int a * 4294967295 \<le> s * 2 ^ 40"
    unfolding ia by (rule int_div_bounds) simp
  then have "(of_int (int a * 4294967295) :: rat) \<le> of_int (s * 2 ^ 40)"
    by (simp only: of_int_le_iff)
  then have lo: "(of_nat a :: rat) / 2 ^ 40 \<le> of_int s / 4294967295"
    by (simp add: field_simps)
  have "s * 2 ^ 40 < (int a + 1) * 4294967295"
    unfolding ia by (rule int_div_bounds) simp
  then have "(of_int (s * 2 ^ 40) :: rat) \<le> of_int ((int a + 1) * 4294967295)"
    by (simp only: of_int_le_iff less_imp_le)
  then have hi: "(of_int s :: rat) / 4294967295 \<le> of_nat (a + 1) / 2 ^ 40"
    by (simp add: field_simps)
  let ?r = "round_double (of_int s / 4294967295)"
  have c1: "a + 1 < 2 ^ 53" using a_le by simp
  note r = sandwich [OF lo hi c1]
  have "of_nat a / 2 ^ 40 * of_nat n \<le> ?r * (of_nat n :: rat)"
    using r(1) [OF le_add1] by (rule mult_right_mono) simp
  then have rl: "(of_nat (a * n) :: rat) / 2 ^ 40 \<le> ?r * of_nat n"
    by (simp only: of_nat_mult times_divide_eq_left)
  have "?r * (of_nat n :: rat) \<le> of_nat (a + 1) / 2 ^ 40 * of_nat n"
    using r(2) [OF le_add1] by (rule mult_right_mono) simp
  then have rh: "?r * of_nat n \<le> of_nat ((a + 1) * n) / 2 ^ 40"
    by (simp only: of_nat_mult times_divide_eq_left)
  have "(a + 1) * n \<le> (2 ^ 40 + 1) * 81"
    using a_le n by (intro mult_mono) simp_all
  then have c2: "(a + 1) * n < 2 ^ 53"
    by simp
  have an: "a * n \<le> (a + 1) * n" by simp
  note x = sandwich [OF rl rh c2 an]
  define j where "j = int a * int n div 2 ^ 40"
  have g': "(int a + 1) * int n div 2 ^ 40 = j"
    using g by (simp only: ia j_def)
  have "j * 2 ^ 40 \<le> int a * int n"
    unfolding j_def by (rule int_div_bounds) simp
  then have "(of_int (j * 2 ^ 40) :: rat) \<le> of_int (int a * int n)"
    by (simp only: of_int_le_iff)
  then have "(of_int j :: rat) \<le> of_nat (a * n) / 2 ^ 40"
    by (simp add: field_simps)
  then have lower: "of_int j \<le> round_double (?r * of_nat n)"
    using x(1) by simp
  have "(int a + 1) * int n < (j + 1) * 2 ^ 40"
    unfolding g' [symmetric] by (rule int_div_bounds) simp
  then have "(of_int ((int a + 1) * int n) :: rat) < of_int ((j + 1) * 2 ^ 40)"
    by (simp only: of_int_less_iff)
  then have "(of_nat ((a + 1) * n) :: rat) / 2 ^ 40 < of_int j + 1"
    by (simp add: field_simps)
  then have upper: "round_double (?r * of_nat n) < of_int j + 1"
    using x(2) by simp
  have "\<lfloor>round_double (?r * of_nat n)\<rfloor> = j"
    using lower upper by (simp add: floor_unique)
  then have "pick s n = nat j"
    by (simp only: pick_def)
  also have "j = s * 2 ^ 40 div 4294967295 * int n div 2 ^ 40"
    by (simp only: j_def ia)
  finally show ?thesis
    by (simp only: pick_int_def)
qed

lemma pick_fast: "pick s n = pick_fast s n"
  by (simp add: pick_fast_def pick_generic)

lemma shuffle_fast: "shuffle_pure k s p = shuffle_fast k s p"
  by (induction k arbitrary: s p) (simp_all add: pick_fast)

lemma carve_eval:
  assumes "lcg_next (to_uint32 seed) \<noteq> 4294967295" "length sol = 81"
    and "shuffle_fast 80 (to_uint32 seed) [0..<81] = P"
  shows "carve sol b seed = map (\<lambda>k. if k \<in> set (take (nat b) P) then CHR ''.'' else sol ! k) [0..<81]"
  using carve_good [OF assms(1,2), of b] assms(2,3) by (simp only: shuffle_fast)

subsection \<open>The reference shuffle in exact arithmetic\<close>

lemma floor_exact: "\<lfloor>(of_int s :: rat) / (2 ^ 32 - 1) * of_nat n\<rfloor> = s * int n div 4294967295"
proof -
  have "(of_int s :: rat) / (2 ^ 32 - 1) * of_nat n = of_int (s * int n) / of_int 4294967295"
    by simp
  then show ?thesis
    by (simp only: floor_divide_of_int_eq)
qed

lemma fy_step_exact_pick:
  "fy_step_exact seed (Suc k) p =
     swap p (81 - Suc k) (pick_exact ((lcg_next ^^ Suc k) (to_uint32 seed)) (81 - Suc k + 1))"
  by (simp only: fy_step_exact_def Let_def spec_stream_def spec_state_Suc pick_exact_def id_apply floor_exact)

lemma shuffle_exact_fold:
  assumes "k \<le> 80"
  shows "shuffle_exact k ((lcg_next ^^ (80 - k)) (to_uint32 seed)) p =
     fold (fy_step_exact seed) [81 - k..<81] p"
  using assms
proof (induction k arbitrary: p)
  case 0
  show ?case by simp
next
  case (Suc k)
  let ?s0 = "to_uint32 seed"
  have k: "k \<le> 79" using Suc.prems by simp
  have "80 - Suc k = 79 - k"
    by simp
  then have st: "lcg_next ((lcg_next ^^ (80 - Suc k)) ?s0) = (lcg_next ^^ Suc (79 - k)) ?s0"
    by (simp only: funpow.simps o_apply)
  have idx: "80 - k = Suc (79 - k)" "81 - Suc (79 - k) = Suc k"
    using k by simp_all
  have "Suc (80 - k) = 81 - k" "80 - k < 81" "81 - Suc k = 80 - k"
    using k by simp_all
  then have "[81 - Suc k..<81] = (80 - k) # [81 - k..<81]"
    by (metis upt_conv_Cons)
  then have "fold (fy_step_exact seed) [81 - Suc k..<81] p =
      fold (fy_step_exact seed) [81 - k..<81] (fy_step_exact seed (80 - k) p)"
    by simp
  also have "fy_step_exact seed (80 - k) p =
      swap p (Suc k) (pick_exact ((lcg_next ^^ Suc (79 - k)) ?s0) (Suc k + 1))"
    unfolding idx(1) fy_step_exact_pick idx(2) ..
  also have "fold (fy_step_exact seed) [81 - k..<81] \<dots> =
      shuffle_exact k ((lcg_next ^^ (80 - k)) ?s0)
        (swap p (Suc k) (pick_exact ((lcg_next ^^ Suc (79 - k)) ?s0) (Suc k + 1)))"
    using k by (intro Suc.IH [symmetric]) simp
  also have "\<dots> = shuffle_exact (Suc k) ((lcg_next ^^ (80 - Suc k)) ?s0) p"
    unfolding shuffle_exact.simps st idx(1) ..
  finally show ?case by simp
qed

lemma fisher_yates_exact:
  "fisher_yates id (spec_stream id seed) =
     shuffle_exact 80 (to_uint32 seed) [0..<81]"
proof -
  have "fisher_yates id (spec_stream id seed) =
      fold (fy_step_exact seed) [1..<81] [0..<81]"
    unfolding fisher_yates_def fy_step_exact_def ..
  also have "\<dots> = shuffle_exact 80 ((lcg_next ^^ (80 - 80)) (to_uint32 seed)) [0..<81]"
    using shuffle_exact_fold [of 80 seed "[0..<81]"] by simp
  finally show ?thesis by simp
qed

lemma carve_spec_exact:
  assumes "length sol = 81" "shuffle_exact 80 (to_uint32 seed) [0..<81] = P"
  shows "carve_spec id sol b seed =
     map (\<lambda>k. if k \<in> set (take (nat b) P) then CHR ''.'' else sol ! k) [0..<81]"
  using assms by (simp only: carve_spec_def Let_def fisher_yates_exact)

subsection \<open>Two seeds evaluated\<close>

lemma order_11:
  "shuffle_fast 80 (to_uint32 11) [0..<81] =
     [71, 63, 75, 40, 21, 23, 10, 28, 78, 62, 46, 74, 79, 14, 4, 8, 61, 38, 51, 52, 37, 12, 59, 39, 0, 3, 33, 44, 54, 32, 50, 13, 69, 20, 16, 77, 26, 58, 29, 66, 11, 70, 49, 9, 1, 35, 56, 73, 47, 36, 41, 48, 80, 57, 31, 60, 17, 2, 45, 43, 72, 67, 65, 30, 25, 42, 34, 68, 24, 18, 76, 15, 7, 53, 6, 64, 55, 5, 27, 22, 19]"
  by code_simp

lemma good_11: "lcg_next (to_uint32 11) \<noteq> 4294967295"
  by (simp add: lcg_next_def to_uint32_def)

lemma carve_11:
  "carve (knownSolutions ! 0) 36 11 =
     ''.34..891.6.2...3.819..4.5678.976..234....379.7.392...6.6153.2...87419.3.34..8...9''"
proof -
  have len: "length (knownSolutions ! 0) = 81"
    by (simp add: knownSolutions_def)
  show ?thesis
    unfolding carve_eval [OF good_11 len order_11] by code_simp
qed

lemma pick_tie: "pick 3149642683 75 = 54"
  by code_simp

lemma order_float:
  "shuffle_fast 80 (to_uint32 2798759798) [0..<81] =
     [19, 70, 79, 62, 18, 77, 23, 60, 8, 33, 25, 52, 6, 64, 49, 68, 53, 17, 45, 48, 73, 41, 2, 28, 57, 38, 69, 75, 43, 51, 29, 80, 78, 32, 11, 21, 65, 4, 3, 1, 5, 16, 7, 37, 0, 55, 74, 42, 58, 22, 47, 40, 71, 76, 36, 24, 20, 46, 67, 14, 35, 30, 27, 12, 61, 13, 15, 10, 9, 44, 50, 56, 39, 66, 54, 72, 26, 34, 63, 59, 31]"
  by code_simp

lemma order_exact:
  "shuffle_exact 80 (to_uint32 2798759798) [0..<81] =
     [19, 70, 79, 62, 18, 77, 23, 60, 8, 33, 25, 52, 6, 64, 49, 68, 53, 17, 45, 48, 73, 41, 2, 28, 57, 38, 69, 75, 43, 51, 29, 80, 78, 32, 11, 21, 65, 4, 3, 1, 5, 16, 7, 37, 0, 74, 54, 42, 58, 22, 47, 40, 71, 76, 36, 24, 20, 46, 67, 14, 35, 30, 27, 12, 61, 13, 15, 10, 9, 44, 50, 56, 39, 66, 55, 72, 26, 34, 63, 59, 31]"
  by code_simp

lemma good_2798759798: "lcg_next (to_uint32 2798759798) \<noteq> 4294967295"
  by (simp add: lcg_next_def to_uint32_def)

lemma carve_2798759798:
  "carve (knownSolutions ! 0) 46 2798759798 =
     ''.........67.1953....8.4.5.78..76..234..85.7.1.13..4...9.1.37.8.2..41...53.5.8....''"
proof -
  have len: "length (knownSolutions ! 0) = 81"
    by (simp add: knownSolutions_def)
  show ?thesis
    unfolding carve_eval [OF good_2798759798 len order_float] by code_simp
qed

lemma carve_spec_2798759798:
  "carve_spec id (knownSolutions ! 0) 46 2798759798 =
     ''.........67.1953....8.4.5.78..76..234..85.7.1.13..4...961.37.8.2..41...53...8....''"
proof -
  have len: "length (knownSolutions ! 0) = 81"
    by (simp add: knownSolutions_def)
  show ?thesis
    unfolding carve_spec_exact [OF len order_exact] by code_simp
qed

lemma seventh_state: "spec_state 2798759798 7 = 3149642683"
  by code_simp

lemma pick_exact_tie: "pick_exact 3149642683 75 = 55"
  by (simp add: pick_exact_def)

text \<open>
  C3 as stated fails when the reference algorithm is computed in exact arithmetic. For
  seed 2798759798 the seventh state is 3149642683, and \<open>3149642683 * 75 / (2 ^ 32 - 1)\<close>
  is exactly 55. The double nearest to \<open>3149642683 / (2 ^ 32 - 1)\<close> lies below the
  quotient, its product with 75 rounds to a double below 55, and \<^verbatim>\<open>Math.floor\<close> gives
  54: \<^verbatim>\<open>carve\<close> swaps positions 74 and 54 where the reference swaps 74 and 55, and
  with 46 blanks cell 55 is blanked instead of cell 74.
\<close>

theorem carve_differs_from_exact_reference:
  "spec_state 2798759798 7 = 3149642683 \<and>
   pick 3149642683 75 = 54 \<and> pick_exact 3149642683 75 = 55 \<and>
   carve (knownSolutions ! 0) 46 2798759798 =
     ''.........67.1953....8.4.5.78..76..234..85.7.1.13..4...9.1.37.8.2..41...53.5.8....'' \<and>
   carve_spec id (knownSolutions ! 0) 46 2798759798 =
     ''.........67.1953....8.4.5.78..76..234..85.7.1.13..4...961.37.8.2..41...53...8....'' \<and>
   carve (knownSolutions ! 0) 46 2798759798 \<noteq> carve_spec id (knownSolutions ! 0) 46 2798759798"
proof -
  have "carve (knownSolutions ! 0) 46 2798759798 \<noteq> carve_spec id (knownSolutions ! 0) 46 2798759798"
    unfolding carve_2798759798 carve_spec_2798759798 by simp
  then show ?thesis
    using seventh_state pick_tie pick_exact_tie carve_2798759798 carve_spec_2798759798 by blast
qed

text \<open>
  C3, as amended. For a solution of 81 characters and a seed whose first generator state
  is not \<open>2 ^ 32 - 1\<close>, \<^verbatim>\<open>carve\<close> computes the reference algorithm with the quotient
  \<open>state / (2 ^ 32 - 1)\<close> and its product with \<open>i + 1\<close> each rounded to the nearest
  double: the states of the linear-congruential recurrence from the seed drive a
  Fisher-Yates shuffle of the indices 0 to 80, which is a permutation of them, and the
  first \<open>b\<close> indices of the shuffled order are blanked. \<^verbatim>\<open>carve\<close> is a function of its
  three arguments (the generator state is local to the call), so equal arguments give
  equal strings.
\<close>

theorem carve_refines_double_reference:
  assumes "length sol = 81" and "spec_state seed 1 \<noteq> 4294967295"
  shows "carve sol b seed = carve_spec round_double sol b seed \<and>
   length (fisher_yates round_double (spec_stream round_double seed)) = 81 \<and>
   distinct (fisher_yates round_double (spec_stream round_double seed)) \<and>
   set (fisher_yates round_double (spec_stream round_double seed)) = {..<81}"
proof -
  have "spec_state seed 1 = lcg_next (to_uint32 seed)"
    using spec_state_Suc [of seed 0] by simp
  with assms(2) have good: "lcg_next (to_uint32 seed) \<noteq> 4294967295"
    by simp
  note g = shuffle_good [OF good]
  show ?thesis
    unfolding fisher_yates_pure using carve_refines [OF assms] g(2,3,4)
    by (simp only: fisher_yates_pure simp_thms)
qed

theorem carve_refines_double_reference_witness:
  "length (knownSolutions ! 0) = 81 \<and> spec_state 11 1 \<noteq> 4294967295 \<and>
   carve (knownSolutions ! 0) 36 11 = carve_spec round_double (knownSolutions ! 0) 36 11 \<and>
   carve_spec round_double (knownSolutions ! 0) 36 11 =
     ''.34..891.6.2...3.819..4.5678.976..234....379.7.392...6.6153.2...87419.3.34..8...9''"
proof -
  have len: "length (knownSolutions ! 0) = 81"
    by (simp add: knownSolutions_def)
  have st: "spec_state 11 1 \<noteq> 4294967295"
    by (simp add: spec_state_def)
  note t = carve_refines_double_reference [OF len st, of 36, THEN conjunct1]
  have "carve_spec round_double (knownSolutions ! 0) 36 11 =
     ''.34..891.6.2...3.819..4.5678.976..234....379.7.392...6.6153.2...87419.3.34..8...9''"
    unfolding t [symmetric] by (rule carve_11)
  with len st t show ?thesis
    by blast
qed

section \<open>\<^verbatim>\<open>generateFallback\<close>: proofs\<close>














end
